theory Spec2Isabelle
  imports Complex_Main
begin

section \<open>Errors and Python indexing\<close>

text \<open>
  The exceptions the modelled code can raise. \<open>find_pattern_transition\<close> raises
  Python's built-in \<open>ValueError\<close>; the other constructors are the exceptions raised by
  the interpreter and by numpy on the paths of \<open>segment_aorta\<close> and
  \<open>create_cylindrical_voi\<close>.
\<close>

datatype error = ValueError | IndexError | ZeroDivisionError | OverflowError | MaskError

text \<open>
  Indexing an axis of length \<open>n\<close> with a Python integer: a negative index counts from
  the end, an index outside \<open>[-n, n)\<close> raises \<open>IndexError\<close>.
\<close>

definition py_index :: "nat \<Rightarrow> int \<Rightarrow> error + nat" where
  "py_index n i =
     (if 0 \<le> i \<and> i < int n then Inr (nat i)
      else if - int n \<le> i \<and> i < 0 then Inr (nat (int n + i))
      else Inl IndexError)"

text \<open>
  Membership of position \<open>z\<close> of an axis of length \<open>n\<close> in the slice \<open>[k:]\<close>: a
  negative start counts from the end and is clipped at the start of the axis.
\<close>

definition in_slice_from :: "nat \<Rightarrow> int \<Rightarrow> nat \<Rightarrow> bool" where
  "in_slice_from n k z = (if k < 0 then max 0 (int n + k) \<le> int z else k \<le> int z)"

section \<open>Three-dimensional arrays\<close>

text \<open>
  A numpy array with three axes: its shape and its elements, \<open>vox v ! x ! y ! z\<close>
  being \<open>v[x, y, z]\<close>. The last axis is the axial one.
\<close>

record 'a vol =
  nx :: nat
  ny :: nat
  nz :: nat
  vox :: "'a list list list"

definition voxel :: "'a vol \<Rightarrow> nat \<Rightarrow> nat \<Rightarrow> nat \<Rightarrow> 'a" where
  "voxel v x y z = vox v ! x ! y ! z"

definition mk :: "nat \<Rightarrow> nat \<Rightarrow> nat \<Rightarrow> (nat \<Rightarrow> nat \<Rightarrow> nat \<Rightarrow> 'a) \<Rightarrow> 'a vol" where
  "mk a b c f =
     \<lparr>nx = a, ny = b, nz = c,
      vox = map (\<lambda>x. map (\<lambda>y. map (\<lambda>z. f x y z) [0..<c]) [0..<b]) [0..<a]\<rparr>"

definition same_shape :: "'a vol \<Rightarrow> 'b vol \<Rightarrow> bool" where
  "same_shape v w = (nx v = nx w \<and> ny v = ny w \<and> nz v = nz w)"

text \<open>The elements agree with the shape, as in every array numpy builds.\<close>

definition wf_vol :: "'a vol \<Rightarrow> bool" where
  "wf_vol v = (v = mk (nx v) (ny v) (nz v) (voxel v))"

text \<open>\<open>v[..., z]\<close>: the two-dimensional slice at axial position \<open>z\<close>.\<close>

definition axial_slice :: "'a vol \<Rightarrow> nat \<Rightarrow> 'a list list" where
  "axial_slice v z = map (\<lambda>x. map (\<lambda>y. voxel v x y z) [0..<ny v]) [0..<nx v]"

text \<open>\<open>v.swapaxes(1, 2)\<close>.\<close>

definition swapaxes12 :: "'a vol \<Rightarrow> 'a vol" where
  "swapaxes12 v = mk (nx v) (nz v) (ny v) (\<lambda>x y z. voxel v x z y)"

text \<open>The voxel positions of an array in C order (last axis fastest).\<close>

definition positions :: "'a vol \<Rightarrow> (nat \<times> nat \<times> nat) list" where
  "positions v =
     concat (map (\<lambda>x. concat (map (\<lambda>y. map (\<lambda>z. (x, y, z)) [0..<nz v]) [0..<ny v]))
                 [0..<nx v])"

definition at_pos :: "'a vol \<Rightarrow> nat \<times> nat \<times> nat \<Rightarrow> 'a" where
  "at_pos v p = voxel v (fst p) (fst (snd p)) (snd (snd p))"

section \<open>Connected components (scipy.ndimage.label)\<close>

text \<open>
  \<open>scipy.ndimage.label\<close> with its default structuring element: two foreground
  positions are neighbours when they differ by one step along one axis. The components
  are numbered from 1 in the order in which the C-order scan meets their first position.
  \<open>grow\<close> adds to a component the neighbours of its members until none is left;
  \<open>components\<close> takes the first remaining position as the seed of the next component.
\<close>

definition step_apart :: "nat \<Rightarrow> nat \<Rightarrow> nat" where
  "step_apart a b = (if a \<le> b then b - a else a - b)"

definition adjacent2 :: "nat \<times> nat \<Rightarrow> nat \<times> nat \<Rightarrow> bool" where
  "adjacent2 p q = (step_apart (fst p) (fst q) + step_apart (snd p) (snd q) = 1)"

definition adjacent3 :: "nat \<times> nat \<times> nat \<Rightarrow> nat \<times> nat \<times> nat \<Rightarrow> bool" where
  "adjacent3 p q =
     (step_apart (fst p) (fst q) + step_apart (fst (snd p)) (fst (snd q))
        + step_apart (snd (snd p)) (snd (snd q)) = 1)"

fun grow :: "('p \<Rightarrow> 'p \<Rightarrow> bool) \<Rightarrow> 'p list \<Rightarrow> nat \<Rightarrow> 'p list \<Rightarrow> 'p list" where
  "grow adj pts 0 region = region"
| "grow adj pts (Suc n) region =
     (let new = filter (\<lambda>p. p \<notin> set region \<and> (\<exists>q\<in>set region. adj q p)) pts
      in if new = [] then region else grow adj pts n (region @ new))"

function components :: "('p \<Rightarrow> 'p \<Rightarrow> bool) \<Rightarrow> 'p list \<Rightarrow> 'p list list" where
  "components adj [] = []"
| "components adj (p # ps) =
     (let region = grow adj ps (length ps) [p]
      in region # components adj (filter (\<lambda>q. q \<notin> set region) ps))"
  by pat_completeness auto
termination
proof (relation "measure (\<lambda>(adj, pts). length pts)")
  show "wf (measure (\<lambda>(adj, pts). length pts))" by simp
next
  fix adj :: "'p \<Rightarrow> 'p \<Rightarrow> bool" and p :: 'p and ps region :: "'p list"
  show "((adj, filter (\<lambda>q. q \<notin> set region) ps), (adj, p # ps))
             \<in> measure (\<lambda>(adj, pts). length pts)"
    by (simp add: less_Suc_eq_le)
qed

fun label_from :: "nat \<Rightarrow> 'p list list \<Rightarrow> 'p \<Rightarrow> nat" where
  "label_from k [] p = 0"
| "label_from k (c # cs) p = (if p \<in> set c then k else label_from (Suc k) cs p)"

text \<open>\<open>label(slice_2d)\<close>: the labelled slice and the number of components.\<close>

definition label2 :: "int list list \<Rightarrow> nat list list \<times> nat" where
  "label2 sl =
     (let pts = concat (map (\<lambda>x. map (\<lambda>y. (x, y))
                   (filter (\<lambda>y. sl ! x ! y \<noteq> 0) [0..<length (sl ! x)])) [0..<length sl]);
          comps = components adjacent2 pts
      in (map (\<lambda>x. map (\<lambda>y. label_from 1 comps (x, y)) [0..<length (sl ! x)]) [0..<length sl],
          length comps))"

text \<open>\<open>label(volume)\<close> on a three-dimensional array.\<close>

definition label3 :: "int vol \<Rightarrow> nat vol \<times> nat" where
  "label3 v =
     (let comps = components adjacent3 (filter (\<lambda>p. at_pos v p \<noteq> 0) (positions v))
      in (mk (nx v) (ny v) (nz v) (\<lambda>x y z. label_from 1 comps (x, y, z)), length comps))"

section \<open>Boundary detection (aorta\_rois.py)\<close>

definition count_connected_components :: "int list list \<Rightarrow> int" where
  "count_connected_components slice_2d = int (snd (label2 slice_2d))"

definition count_axial_components :: "int vol \<Rightarrow> int list" where
  "count_axial_components volume =
     map (\<lambda>sl. count_connected_components (axial_slice volume sl)) [0..<nz volume]"

text \<open>
  The boundary mode \<open>reflect\<close> of scipy.ndimage, the default: a position outside an
  axis of length \<open>n\<close> reads the axis mirrored about its edge, the edge element repeated
  (\<open>d c b a | a b c d | d c b a\<close>).
\<close>

definition reflect_index :: "nat \<Rightarrow> int \<Rightarrow> nat" where
  "reflect_index n i =
     (let m = i mod (2 * int n)
      in nat (if m < int n then m else 2 * int n - 1 - m))"

text \<open>
  \<open>median_filter(a, size=5)\<close> on a one-dimensional integer array: the third smallest
  of the five elements around each position.
\<close>

definition median_filter5 :: "int list \<Rightarrow> int list" where
  "median_filter5 a =
     map (\<lambda>i. sort (map (\<lambda>d. a ! reflect_index (length a) (int i + d)) [-2, -1, 0, 1, 2]) ! 2)
         [0..<length a]"

text \<open>
  \<open>np.lib.stride_tricks.sliding_window_view(array, w)\<close> on a one-dimensional array: the
  \<open>len(array) - w + 1\<close> windows of width \<open>w\<close>; numpy raises \<open>ValueError\<close> when the
  window is larger than the array.
\<close>

definition sliding_window_view :: "'a list \<Rightarrow> nat \<Rightarrow> error + 'a list list" where
  "sliding_window_view a w =
     (if length a < w then Inl ValueError
      else Inr (map (\<lambda>i. take w (drop i a)) [0..<length a - w + 1]))"

definition find_pattern_transition :: "int list \<Rightarrow> int list \<Rightarrow> error + int" where
  "find_pattern_transition array pattern =
     (case sliding_window_view array (length pattern) of
        Inl e \<Rightarrow> Inl e
      | Inr windows \<Rightarrow>
          (let indices = filter (\<lambda>i. windows ! i = pattern) [0..<length windows]
           in if length indices \<noteq> 1 then Inl ValueError
              else Inr (int (indices ! 0) + int (length pattern div 2))))"

text \<open>
  The occurrences of a pattern in a signal, stated position by position: the set the
  specification counts.
\<close>

definition pattern_occurrences :: "int list \<Rightarrow> int list \<Rightarrow> nat set" where
  "pattern_occurrences a p =
     {i. i + length p \<le> length a \<and> (\<forall>j<length p. a ! (i + j) = p ! j)}"

definition smoothed_islands :: "int vol \<Rightarrow> int list" where
  "smoothed_islands aorta_volume =
     median_filter5 (map (\<lambda>c. min c 2) (count_axial_components aorta_volume))"

definition find_aortic_segments_boundaries :: "int vol \<Rightarrow> error + (int \<times> int)" where
  "find_aortic_segments_boundaries aorta_volume =
     (let islands = count_axial_components aorta_volume;
          islands = map (\<lambda>c. min c 2) islands;
          islands = median_filter5 islands
      in case find_pattern_transition islands [1, 1, 2, 2] of
           Inl e \<Rightarrow> Inl e
         | Inr ix_start \<Rightarrow>
             (case find_pattern_transition islands [2, 2, 1, 1] of
                Inl e \<Rightarrow> Inl e
              | Inr ix_curve \<Rightarrow> Inr (ix_start, ix_curve)))"

section \<open>Anatomical segmentation (aorta\_rois.py)\<close>

datatype AortaSegment = ASCENDING | TOP | DESCENDING | DESCENDING_BOTTOM

fun seg_value :: "AortaSegment \<Rightarrow> int" where
  "seg_value ASCENDING = 1"
| "seg_value TOP = 2"
| "seg_value DESCENDING = 3"
| "seg_value DESCENDING_BOTTOM = 4"

text \<open>The part of the mask before the curve: \<open>aorta_seg[..., ix_curve:] = 0\<close>.\<close>

definition pre_curve :: "int vol \<Rightarrow> int \<Rightarrow> int vol" where
  "pre_curve aorta ix_curve =
     mk (nx aorta) (ny aorta) (nz aorta)
        (\<lambda>x y z. if in_slice_from (nz aorta) ix_curve z then 0 else voxel aorta x y z)"

definition count_label :: "nat vol \<Rightarrow> nat \<Rightarrow> nat" where
  "count_label labeled k = length (filter (\<lambda>p. at_pos labeled p = k) (positions labeled))"

text \<open>
  \<open>segment_aorta\<close>. The lookup \<open>mapping[labeled]\<close> in the three-element table raises
  \<open>IndexError\<close> when a component beyond the second exists. The result is cast to
  \<open>uint8\<close>.
\<close>

definition segment_aorta :: "int vol \<Rightarrow> error + int vol" where
  "segment_aorta aorta =
     (case find_aortic_segments_boundaries aorta of
        Inl e \<Rightarrow> Inl e
      | Inr (ix_start, ix_curve) \<Rightarrow>
          (let aorta_seg = pre_curve aorta ix_curve;
               (labeled, num) = label3 aorta_seg;
               mapping = (if count_label labeled 1 > count_label labeled 2
                          then [0, seg_value DESCENDING, seg_value ASCENDING]
                          else [0, seg_value ASCENDING, seg_value DESCENDING])
           in if 2 < num then Inl IndexError
              else Inr (mk (nx aorta) (ny aorta) (nz aorta)
                (\<lambda>x y z.
                   (let v = (if in_slice_from (nz aorta) ix_curve z
                             then voxel aorta x y z * seg_value TOP
                             else mapping ! voxel labeled x y z);
                        v = (if v = seg_value DESCENDING \<and> int z < ix_start
                             then seg_value DESCENDING_BOTTOM else v)
                    in v mod 256)))))"

section \<open>Overlapped chunk iterator (used by patlak.py)\<close>

record chunk =
  read_start :: int
  read_end :: int
  valid_start :: int
  valid_end :: int
  write_start :: int
  write_size :: int

text \<open>
  Modelled from the spec: \<open>OverlappedChunkIterator\<close> of \<open>nifti_dynamic/utils.py\<close>, which
  \<open>voxel_patlak\<close> imports and which is not among the source files. Step \<open>i\<close> reads
  \<open>[max(0, i*C - B), min(L, i*C + C + B))\<close> and writes \<open>[i*C, min(L, (i+1)*C))\<close>; the
  valid offsets locate the write range inside the read window. The steps run while
  \<open>i*C < L\<close>. The specification gives no behaviour for a chunk size that is not
  positive; the model yields no step there.
\<close>

definition chunk_at :: "int \<Rightarrow> int \<Rightarrow> int \<Rightarrow> nat \<Rightarrow> chunk" where
  "chunk_at L C B i =
     (let rs = max 0 (int i * C - B);
          re = min L (int i * C + C + B);
          ws = int i * C;
          we = min L ((int i + 1) * C)
      in \<lparr>read_start = rs, read_end = re, valid_start = ws - rs, valid_end = we - rs,
          write_start = ws, write_size = we - ws\<rparr>)"

text \<open>
  Modelled from the spec: the sequence of steps of \<open>OverlappedChunkIterator\<close>, from
  step \<open>i\<close> on, "for a sequence of steps covering [0, L)".
\<close>

function chunks_from :: "int \<Rightarrow> int \<Rightarrow> int \<Rightarrow> nat \<Rightarrow> chunk list" where
  "chunks_from L C B i =
     (if C \<le> 0 \<or> L \<le> int i * C then []
      else chunk_at L C B i # chunks_from L C B (Suc i))"
  by pat_completeness auto
termination
proof (relation "measure (\<lambda>(L, C, B, i). nat (L - int i * C))")
  show "wf (measure (\<lambda>(L, C, B, i). nat (L - int i * C)))" by simp
next
  fix L C B :: int and i :: nat
  assume "\<not> (C \<le> 0 \<or> L \<le> int i * C)"
  then have "0 < C" and "int i * C < L" by simp_all
  moreover have "int (Suc i) * C = int i * C + C" by (simp add: distrib_right)
  ultimately have "nat (L - int (Suc i) * C) < nat (L - int i * C)" by linarith
  then show "((L, C, B, Suc i), (L, C, B, i)) \<in> measure (\<lambda>(L, C, B, i). nat (L - int i * C))"
    by simp
qed

declare chunks_from.simps [simp del]

text \<open>
  Modelled from the spec: \<open>OverlappedChunkIterator(array_size, chunk_size, border_size)\<close>
  as \<open>voxel_patlak\<close> constructs it, iterated from the first step.
\<close>

definition OverlappedChunkIterator :: "int \<Rightarrow> int \<Rightarrow> int \<Rightarrow> chunk list" where
  "OverlappedChunkIterator array_size chunk_size border_size =
     chunks_from array_size chunk_size border_size 0"

definition write_range :: "chunk \<Rightarrow> int list" where
  "write_range c = [write_start c .. write_start c + write_size c - 1]"

definition read_window :: "chunk \<Rightarrow> int set" where
  "read_window c = {read_start c ..< read_end c}"

text \<open>
  The voxels of a volume that hold a given value, and the voxels that hold a value other
  than 0.
\<close>

definition label_region :: "int vol \<Rightarrow> int \<Rightarrow> (nat \<times> nat \<times> nat) set" where
  "label_region v k = {p \<in> set (positions v). at_pos v p = k}"

definition support :: "int vol \<Rightarrow> (nat \<times> nat \<times> nat) set" where
  "support v = {p \<in> set (positions v). at_pos v p \<noteq> 0}"

section \<open>The signal of the boundary detection, in the specification's words\<close>

text \<open>
  Connected components, stated without the algorithm: two positions of a set are linked
  when they are neighbours; the component of a position is what a chain of links
  reaches from it; the number of components of a set is the number of the components of
  its positions.
\<close>

definition linked :: "('p \<Rightarrow> 'p \<Rightarrow> bool) \<Rightarrow> 'p set \<Rightarrow> ('p \<times> 'p) set" where
  "linked adj S = {(p, q). p \<in> S \<and> q \<in> S \<and> adj p q}"

definition component_of :: "('p \<Rightarrow> 'p \<Rightarrow> bool) \<Rightarrow> 'p set \<Rightarrow> 'p \<Rightarrow> 'p set" where
  "component_of adj S p = (linked adj S)\<^sup>* `` {p}"

definition component_count :: "('p \<Rightarrow> 'p \<Rightarrow> bool) \<Rightarrow> 'p set \<Rightarrow> nat" where
  "component_count adj S = card (component_of adj S ` S)"

text \<open>
  Two pixels of a slice are neighbours when they lie side by side in a row or in a
  column. The foreground of the axial slice \<open>z\<close> of a volume is the set of its pixels
  that are not 0; \<open>slice_components\<close> is the number of its connected components and
  \<open>capped_count\<close> that number capped at 2.
\<close>

definition four_neighbours :: "nat \<times> nat \<Rightarrow> nat \<times> nat \<Rightarrow> bool" where
  "four_neighbours p q =
     ((fst p = fst q \<and> (snd p = Suc (snd q) \<or> snd q = Suc (snd p)))
      \<or> (snd p = snd q \<and> (fst p = Suc (fst q) \<or> fst q = Suc (fst p))))"

definition slice_foreground :: "int vol \<Rightarrow> nat \<Rightarrow> (nat \<times> nat) set" where
  "slice_foreground v z = {(x, y). x < nx v \<and> y < ny v \<and> voxel v x y z \<noteq> 0}"

definition slice_components :: "int vol \<Rightarrow> nat \<Rightarrow> nat" where
  "slice_components v z = component_count four_neighbours (slice_foreground v z)"

definition capped_count :: "int vol \<Rightarrow> nat \<Rightarrow> int" where
  "capped_count v z = (if 2 < slice_components v z then 2 else int (slice_components v z))"

text \<open>
  The position read for position \<open>j\<close> of an axis of length \<open>n\<close> mirrored about its
  edges, for \<open>j\<close> at most \<open>n\<close> positions outside.
\<close>

definition mirrored :: "nat \<Rightarrow> int \<Rightarrow> nat" where
  "mirrored n j = nat (if j < 0 then - j - 1 else if int n \<le> j then 2 * int n - 1 - j else j)"

text \<open>
  The median of a window: an element of the window with at least three of the five
  elements at or below it and at least three at or above it.
\<close>

definition median_of_five :: "int list \<Rightarrow> int \<Rightarrow> bool" where
  "median_of_five w m =
     (m \<in> set w \<and> 3 \<le> length (filter (\<lambda>a. a \<le> m) w) \<and> 3 \<le> length (filter (\<lambda>a. m \<le> a) w))"

section \<open>Uptake refinement (aorta\_rois.py)\<close>

text \<open>
  Activities are 64-bit floats in the code; the model computes with exact rationals.
  The places where the code divides zero by zero and carries the resulting NaN on are
  written out as branches.
\<close>

text \<open>\<open>np.median\<close> of a non-empty one-dimensional array.\<close>

definition median :: "rat list \<Rightarrow> rat" where
  "median xs =
     (let s = sort xs; n = length xs
      in if odd n then s ! (n div 2) else (s ! (n div 2 - 1) + s ! (n div 2)) / 2)"

text \<open>
  \<open>refine_aorta_with_pet_uptake\<close>. The boolean index \<open>pet[aorta > 0]\<close> raises
  \<open>IndexError\<close> when the shapes differ. With no labelled voxel the median is NaN, no
  activity compares above it and every voxel is set to 0.
\<close>

definition refine_aorta_with_pet_uptake :: "int vol \<Rightarrow> rat vol \<Rightarrow> error + int vol" where
  "refine_aorta_with_pet_uptake aorta pet =
     (if \<not> same_shape aorta pet then Inl IndexError
      else
        (let labelled = map (at_pos pet) (filter (\<lambda>p. 0 < at_pos aorta p) (positions aorta))
         in if labelled = [] then Inr (mk (nx aorta) (ny aorta) (nz aorta) (\<lambda>x y z. 0))
            else
              (let pet_median_aorta = median labelled
               in Inr (mk (nx aorta) (ny aorta) (nz aorta)
                    (\<lambda>x y z. if 2 / 3 * pet_median_aorta < voxel pet x y z
                             then voxel aorta x y z else 0)))))"

section \<open>Cylindrical volume of interest (aorta\_rois.py)\<close>

text \<open>Python's \<open>int\<close> of a float: truncation towards zero.\<close>

definition py_int :: "rat \<Rightarrow> int" where
  "py_int q = (if 0 \<le> q then \<lfloor>q\<rfloor> else \<lceil>q\<rceil>)"

text \<open>Python's \<open>round\<close> of a float: to the nearest integer, a tie to the even one.\<close>

definition py_round :: "rat \<Rightarrow> int" where
  "py_round q =
     (let f = \<lfloor>q\<rfloor>; d = q - of_int f
      in if d < 1 / 2 then f else if 1 / 2 < d then f + 1
         else if even f then f else f + 1)"

text \<open>
  \<open>target_voxels = int(volume_ml * 1000 / voxel_volume)\<close>. A zero voxel volume gives
  an infinite quotient (NaN for a zero target volume), on which \<open>int\<close> raises.
\<close>

definition target_voxels :: "rat list \<Rightarrow> rat \<Rightarrow> error + int" where
  "target_voxels voxel_size volume_ml =
     (let voxel_volume = prod_list voxel_size
      in if voxel_volume = 0
         then (if volume_ml * 1000 = 0 then Inl ValueError else Inl OverflowError)
         else Inr (py_int (volume_ml * 1000 / voxel_volume)))"

text \<open>\<open>n_slices_needed = max(1, int(np.ceil(target_voxels / voxels_per_slice)))\<close>.\<close>

definition n_slices_needed :: "int \<Rightarrow> int \<Rightarrow> error + int" where
  "n_slices_needed target cylinder_width =
     (let voxels_per_slice = cylinder_width ^ 2
      in if voxels_per_slice = 0 then Inl ZeroDivisionError
         else Inr (max 1 \<lceil>(of_int target :: rat) / of_int voxels_per_slice\<rceil>))"

text \<open>
  \<open>np.ma.median(pet_masked, axis=(0,1)).filled(0)\<close>: for every axial position the
  median of the activity over the voxels of the segment, 0 where the segment has none.
\<close>

definition slice_positions :: "'a vol \<Rightarrow> nat \<Rightarrow> (nat \<times> nat \<times> nat) list" where
  "slice_positions v z = concat (map (\<lambda>x. map (\<lambda>y. (x, y, z)) [0..<ny v]) [0..<nx v])"

definition median_axial_uptake :: "bool vol \<Rightarrow> rat vol \<Rightarrow> rat list" where
  "median_axial_uptake aorta_segment pet =
     map (\<lambda>z. (let vals = map (at_pos pet) (filter (at_pos aorta_segment) (slice_positions pet z))
                in if vals = [] then 0 else median vals))
         [0..<nz pet]"

text \<open>
  \<open>uniform_filter(a, size)\<close> on a one-dimensional array, boundary mode \<open>reflect\<close>:
  the mean of the \<open>size\<close> elements from position \<open>i - size // 2\<close> on.
\<close>

definition uniform_filter :: "rat list \<Rightarrow> int \<Rightarrow> rat list" where
  "uniform_filter a width =
     map (\<lambda>i. sum_list (map (\<lambda>j. a ! reflect_index (length a) (int i - width div 2 + int j))
                              [0..<nat width]) / of_int width)
         [0..<length a]"

text \<open>\<open>np.argmax\<close>: the first position of the maximum; \<open>ValueError\<close> on an empty array.\<close>

fun argmax_from :: "nat \<Rightarrow> rat \<Rightarrow> nat \<Rightarrow> rat list \<Rightarrow> nat" where
  "argmax_from best bv i [] = best"
| "argmax_from best bv i (y # ys) =
     (if bv < y then argmax_from i y (Suc i) ys else argmax_from best bv (Suc i) ys)"

definition argmax :: "rat list \<Rightarrow> error + nat" where
  "argmax a = (case a of [] \<Rightarrow> Inl ValueError | x # xs \<Rightarrow> Inr (argmax_from 0 x 1 xs))"

definition start_slice :: "bool vol \<Rightarrow> rat vol \<Rightarrow> int \<Rightarrow> error + int" where
  "start_slice aorta_segment pet n =
     (case argmax (uniform_filter (median_axial_uptake aorta_segment pet) n) of
        Inl e \<Rightarrow> Inl e
      | Inr peak \<Rightarrow> Inr (int peak - n div 2))"

text \<open>
  \<open>scipy.ndimage.center_of_mass\<close> of a two-dimensional slice: the coordinates weighted
  by the activity, divided by the total activity; \<open>None\<close> is the NaN pair of a slice
  whose total is zero.
\<close>

definition center_of_mass :: "rat list list \<Rightarrow> (rat \<times> rat) option" where
  "center_of_mass sl =
     (let total = sum_list (map sum_list sl)
      in if total = 0 then None
         else Some (sum_list (map (\<lambda>x. of_nat x * sum_list (sl ! x)) [0..<length sl]) / total,
                    sum_list (map (\<lambda>x. sum_list (map (\<lambda>y. of_nat y * sl ! x ! y)
                                                       [0..<length (sl ! x)]))
                                  [0..<length sl]) / total))"

text \<open>\<open>voi[x, y, z] = True\<close>.\<close>

definition set_voxel :: "'a vol \<Rightarrow> nat \<Rightarrow> nat \<Rightarrow> nat \<Rightarrow> 'a \<Rightarrow> 'a vol" where
  "set_voxel v x y z a =
     mk (nx v) (ny v) (nz v) (\<lambda>i j k. if i = x \<and> j = y \<and> k = z then a else voxel v i j k)"

text \<open>
  The seed loop \<open>for slc in range(start_slice, start_slice + n_slices_needed)\<close>. The
  slice index and the rounded centre coordinates are Python integers used as indices:
  negative ones count from the end of their axis. \<open>round\<close> raises \<open>ValueError\<close> on the
  NaN centre of a slice without activity.
\<close>

fun place_seeds :: "rat vol \<Rightarrow> bool vol \<Rightarrow> int list \<Rightarrow> error + bool vol" where
  "place_seeds pet_masked voi [] = Inr voi"
| "place_seeds pet_masked voi (slc # rest) =
     (case py_index (nz pet_masked) slc of
        Inl e \<Rightarrow> Inl e
      | Inr k \<Rightarrow>
          (case center_of_mass (axial_slice pet_masked k) of
             None \<Rightarrow> Inl ValueError
           | Some (x, y) \<Rightarrow>
               (case py_index (nx voi) (py_round x) of
                  Inl e \<Rightarrow> Inl e
                | Inr i \<Rightarrow>
                    (case py_index (ny voi) (py_round y) of
                       Inl e \<Rightarrow> Inl e
                     | Inr j \<Rightarrow> place_seeds pet_masked (set_voxel voi i j k True) rest))))"

text \<open>
  \<open>binary_dilation(voi, np.ones((w, w, 1)))\<close>: a voxel is set when the \<open>w\<close> by \<open>w\<close>
  window around it in its axial slice, \<open>w // 2\<close> positions up and \<open>w - 1 - w // 2\<close>
  positions down, holds a set voxel. Positions outside the array count as unset.
\<close>

definition binary_dilation :: "bool vol \<Rightarrow> int \<Rightarrow> bool vol" where
  "binary_dilation voi w =
     mk (nx voi) (ny voi) (nz voi)
        (\<lambda>x y z. \<exists>sx\<in>set [0..<nx voi]. \<exists>sy\<in>set [0..<ny voi].
                   voxel voi sx sy z
                   \<and> int x - (w - 1 - w div 2) \<le> int sx \<and> int sx \<le> int x + w div 2
                   \<and> int y - (w - 1 - w div 2) \<le> int sy \<and> int sy \<le> int y + w div 2)"

text \<open>
  \<open>create_cylindrical_voi\<close>. A mask whose shape differs from the frame's makes
  \<open>np.ma.masked_array\<close> raise; a negative width makes \<open>np.ones\<close> raise.
\<close>

definition create_cylindrical_voi ::
    "bool vol \<Rightarrow> rat vol \<Rightarrow> rat list \<Rightarrow> rat \<Rightarrow> int \<Rightarrow> error + bool vol" where
  "create_cylindrical_voi aorta_segment pet voxel_size volume_ml cylinder_width =
     (case target_voxels voxel_size volume_ml of
        Inl e \<Rightarrow> Inl e
      | Inr target \<Rightarrow>
     (case n_slices_needed target cylinder_width of
        Inl e \<Rightarrow> Inl e
      | Inr n \<Rightarrow>
     (if \<not> same_shape aorta_segment pet then Inl MaskError
      else
     (case start_slice aorta_segment pet n of
        Inl e \<Rightarrow> Inl e
      | Inr start \<Rightarrow>
     (let voi = mk (nx aorta_segment) (ny aorta_segment) (nz aorta_segment) (\<lambda>x y z. False);
          pet_masked = mk (nx pet) (ny pet) (nz pet)
                          (\<lambda>x y z. if voxel aorta_segment x y z then voxel pet x y z else 0)
      in case place_seeds pet_masked voi [start .. start + n - 1] of
           Inl e \<Rightarrow> Inl e
         | Inr voi \<Rightarrow>
             if cylinder_width < 0 then Inl ValueError
             else Inr (binary_dilation voi cylinder_width))))))"

section \<open>Extraction of the volumes of interest (aorta\_rois.py)\<close>

text \<open>
  The dynamic image is a four-dimensional array: every voxel holds its time series.
  \<open>average_early_pet_frames\<close> takes the mean of the first \<open>n_frames\<close> frames, where
  \<open>n_frames\<close> counts the frame start times below the threshold. The mean of no frame is
  NaN: \<open>None\<close>.
\<close>

definition average_early_pet_frames :: "rat list vol \<Rightarrow> rat list \<Rightarrow> rat \<Rightarrow> rat option vol" where
  "average_early_pet_frames dpet frame_times_start t_threshold =
     (let n_frames = length (filter (\<lambda>t. t < t_threshold) frame_times_start)
      in mk (nx dpet) (ny dpet) (nz dpet)
            (\<lambda>x y z. (let early = take n_frames (voxel dpet x y z)
                       in if early = [] then None
                          else Some (sum_list early / of_nat (length early)))))"

text \<open>\<open>np.abs(np.diag(affine[:3, :3]))\<close>.\<close>

definition voxel_size_of :: "rat list list \<Rightarrow> rat list" where
  "voxel_size_of affine =
     map (\<lambda>i. \<bar>affine ! i ! i\<bar>)
         (filter (\<lambda>i. i < length affine \<and> i < length (affine ! i)) [0..<3])"

text \<open>\<open>voxel_size[[0, 2, 1]]\<close>.\<close>

definition permute_spacing :: "rat list \<Rightarrow> error + rat list" where
  "permute_spacing voxel_size =
     (if length voxel_size < 3 then Inl IndexError
      else Inr [voxel_size ! 0, voxel_size ! 2, voxel_size ! 1])"

text \<open>The body of the loop over the segments: the volume of interest of one segment.\<close>

definition segment_voi ::
    "AortaSegment \<Rightarrow> int vol \<Rightarrow> rat vol \<Rightarrow> rat list \<Rightarrow> rat \<Rightarrow> int \<Rightarrow> error + bool vol" where
  "segment_voi seg aorta_segments pet_40s voxel_size volume_ml cylinder_width =
     (let aorta_segment = mk (nx aorta_segments) (ny aorta_segments) (nz aorta_segments)
                             (\<lambda>x y z. voxel aorta_segments x y z = seg_value seg)
      in if seg = TOP
         then (case permute_spacing voxel_size of
                 Inl e \<Rightarrow> Inl e
               | Inr spacing \<Rightarrow>
                   (case create_cylindrical_voi (swapaxes12 aorta_segment) (swapaxes12 pet_40s)
                           spacing volume_ml cylinder_width of
                      Inl e \<Rightarrow> Inl e
                    | Inr voi \<Rightarrow> Inr (swapaxes12 voi)))
         else create_cylindrical_voi aorta_segment pet_40s voxel_size volume_ml cylinder_width)"

text \<open>\<open>vois[voi] = seg.value\<close>; a mask of another shape raises \<open>IndexError\<close>.\<close>

definition assign_where :: "int vol \<Rightarrow> bool vol \<Rightarrow> int \<Rightarrow> error + int vol" where
  "assign_where vois voi a =
     (if \<not> same_shape vois voi then Inl IndexError
      else Inr (mk (nx vois) (ny vois) (nz vois)
                   (\<lambda>x y z. if voxel voi x y z then a else voxel vois x y z)))"

fun place_segments ::
    "AortaSegment list \<Rightarrow> int vol \<Rightarrow> int vol \<Rightarrow> rat vol \<Rightarrow> rat list \<Rightarrow> rat \<Rightarrow> int
      \<Rightarrow> error + int vol" where
  "place_segments [] vois aorta_segments pet_40s voxel_size volume_ml cylinder_width = Inr vois"
| "place_segments (seg # segs) vois aorta_segments pet_40s voxel_size volume_ml cylinder_width =
     (case segment_voi seg aorta_segments pet_40s voxel_size volume_ml cylinder_width of
        Inl e \<Rightarrow> Inl e
      | Inr voi \<Rightarrow>
          (case assign_where vois voi (seg_value seg) of
             Inl e \<Rightarrow> Inl e
           | Inr vois' \<Rightarrow>
               place_segments segs vois' aorta_segments pet_40s voxel_size volume_ml
                 cylinder_width))"

text \<open>
  \<open>extract_aorta_vois\<close>. When the early mean is NaN, no activity compares above the
  threshold of the refinement: the refined segmentation is empty and the placement runs
  on empty segments, where the activity is masked out everywhere.
\<close>

definition refined_segments :: "int vol \<Rightarrow> rat option vol \<Rightarrow> error + (int vol \<times> rat vol)" where
  "refined_segments aorta_segments pet_40s =
     (if \<not> same_shape aorta_segments pet_40s then Inl IndexError
      else if list_ex (\<lambda>p. at_pos pet_40s p = None) (positions pet_40s)
      then Inr (mk (nx aorta_segments) (ny aorta_segments) (nz aorta_segments) (\<lambda>x y z. 0),
                mk (nx pet_40s) (ny pet_40s) (nz pet_40s) (\<lambda>x y z. 0))
      else
        (let pet = mk (nx pet_40s) (ny pet_40s) (nz pet_40s) (\<lambda>x y z. the (voxel pet_40s x y z))
         in case refine_aorta_with_pet_uptake aorta_segments pet of
              Inl e \<Rightarrow> Inl e
            | Inr refined \<Rightarrow> Inr (refined, pet)))"

definition extract_aorta_vois ::
    "int vol \<Rightarrow> rat list list \<Rightarrow> rat list vol \<Rightarrow> rat list \<Rightarrow> rat \<Rightarrow> rat \<Rightarrow> int
      \<Rightarrow> error + (int vol \<times> int vol)" where
  "extract_aorta_vois aorta_mask affine dpet frame_times_start t_threshold volume_ml
       cylinder_width =
     (let pet_40s = average_early_pet_frames dpet frame_times_start t_threshold
      in case segment_aorta aorta_mask of
           Inl e \<Rightarrow> Inl e
         | Inr aorta_segments \<Rightarrow>
             (case refined_segments aorta_segments pet_40s of
                Inl e \<Rightarrow> Inl e
              | Inr (aorta_segments, pet) \<Rightarrow>
                  (let voxel_size = voxel_size_of affine;
                       vois = mk (nx aorta_segments) (ny aorta_segments) (nz aorta_segments)
                                 (\<lambda>x y z. 0)
                   in case place_segments [ASCENDING, TOP, DESCENDING, DESCENDING_BOTTOM] vois
                             aorta_segments pet voxel_size volume_ml cylinder_width of
                        Inl e \<Rightarrow> Inl e
                      | Inr vois \<Rightarrow> Inr (vois, aorta_segments))))"


section \<open>The placement on the arch, in the specification's words\<close>

text \<open>
  The specification describes the placement on the TOP zone as a generic wrapper around
  the placer: transpose spatial axes 1 and 2 of the zone mask and of the activity frame,
  permute the voxel spacing to match, run the placer, and transpose the resulting volume
  of interest back. \<open>transposed12\<close> states the transposition position by position: a
  volume \<open>w\<close> is \<open>v\<close> with axes 1 and 2 exchanged.
\<close>

definition transposed12 :: "'a vol \<Rightarrow> 'a vol \<Rightarrow> bool" where
  "transposed12 v w =
     (nx w = nx v \<and> ny w = nz v \<and> nz w = ny v
      \<and> (\<forall>x<nx v. \<forall>y<ny v. \<forall>z<nz v. voxel w x z y = voxel v x y z))"

definition permute_run_permute_back ::
    "(bool vol \<Rightarrow> rat vol \<Rightarrow> rat list \<Rightarrow> error + bool vol)
      \<Rightarrow> bool vol \<Rightarrow> rat vol \<Rightarrow> rat \<times> rat \<times> rat \<Rightarrow> error + bool vol" where
  "permute_run_permute_back placer zone frame spacing =
     (case spacing of (sx, sy, sz) \<Rightarrow>
        (case placer (swapaxes12 zone) (swapaxes12 frame) [sx, sz, sy] of
           Inl e \<Rightarrow> Inl e
         | Inr voi \<Rightarrow> Inr (swapaxes12 voi)))"

text \<open>The mask of one segment: \<open>aorta_segments == seg.value\<close>.\<close>

definition segment_mask :: "int vol \<Rightarrow> AortaSegment \<Rightarrow> bool vol" where
  "segment_mask aorta_segments seg =
     mk (nx aorta_segments) (ny aorta_segments) (nz aorta_segments)
        (\<lambda>x y z. voxel aorta_segments x y z = seg_value seg)"

section \<open>Patlak fit of one chunk (patlak.py)\<close>

text \<open>
  The arithmetic of the fit is kept abstract: the elements are of any type with a
  division and numerals, so that what is proved about the flow of the data does not
  depend on how 64-bit floats round, overflow or produce NaN. Two routines of external
  libraries are parameters: \<open>cumulative_simpson\<close> (scipy), which may raise, and the
  least-squares fit of one target against one feature, \<open>ols\<close>, which returns the slope
  and the intercept.
\<close>

text \<open>Python's \<open>xs[-k:]\<close>.\<close>

definition py_last :: "int \<Rightarrow> 'a list \<Rightarrow> 'a list" where
  "py_last k xs = (if 0 < k then drop (length xs - nat k) xs else drop (nat (- k)) xs)"

text \<open>
  The division of two one-dimensional arrays, and of the rows of a matrix by the
  entries of a column (\<open>Y / d[:, None]\<close>), with numpy's broadcasting: an axis of
  length 1 is repeated, other lengths that differ raise \<open>ValueError\<close>.
\<close>

definition np_divide :: "'a::inverse list \<Rightarrow> 'a list \<Rightarrow> error + 'a list" where
  "np_divide a b =
     (if length a = length b then Inr (map (\<lambda>(x, y). x / y) (zip a b))
      else if length a = 1 then Inr (map (\<lambda>y. a ! 0 / y) b)
      else if length b = 1 then Inr (map (\<lambda>x. x / b ! 0) a)
      else Inl ValueError)"

definition np_divide_column :: "'a::inverse list list \<Rightarrow> 'a list \<Rightarrow> error + 'a list list" where
  "np_divide_column m d =
     (if length m = length d then Inr (map (\<lambda>(row, y). map (\<lambda>x. x / y) row) (zip m d))
      else if length m = 1 then Inr (map (\<lambda>y. map (\<lambda>x. x / y) (m ! 0)) d)
      else if length d = 1 then Inr (map (\<lambda>row. map (\<lambda>x. x / d ! 0) row) m)
      else Inl ValueError)"

text \<open>
  The chunk is a four-dimensional array: every voxel holds its time series.
  \<open>arr.shape[-1]\<close> is the length of the series; \<open>arr.reshape(-1, arr.shape[-1])\<close> lists
  the series in C order, and \<open>.T\<close> turns the rows into columns.
\<close>

definition n_frames :: "'a list vol \<Rightarrow> nat" where
  "n_frames arr = (case positions arr of [] \<Rightarrow> 0 | p # ps \<Rightarrow> length (at_pos arr p))"

definition np_transpose :: "nat \<Rightarrow> 'a list list \<Rightarrow> 'a list list" where
  "np_transpose ncols rows = map (\<lambda>k. map (\<lambda>row. row ! k) rows) [0..<ncols]"

text \<open>
  \<open>LinearRegression().fit(X, Y)\<close> of scikit-learn with one feature and a matrix \<open>Y\<close>
  of one column per target: every column is fitted against \<open>X\<close>; \<open>coef_\<close> holds the
  slopes and \<open>intercept_\<close> the intercepts. The input validation raises \<open>ValueError\<close>
  on no sample, on no target, on numbers of samples that differ and on an entry that
  is not finite.
\<close>

definition linear_regression_fit ::
    "('a \<Rightarrow> bool) \<Rightarrow> ('a list \<Rightarrow> 'a list \<Rightarrow> 'a \<times> 'a) \<Rightarrow> 'a list \<Rightarrow> 'a list list \<Rightarrow> nat
      \<Rightarrow> error + ('a list \<times> 'a list)" where
  "linear_regression_fit is_finite ols X Y n_targets =
     (if X = [] \<or> length X \<noteq> length Y \<or> n_targets = 0 then Inl ValueError
      else if \<not> (list_all is_finite X \<and> list_all (list_all is_finite) Y) then Inl ValueError
      else
        (let fits = map (\<lambda>j. ols X (map (\<lambda>row. row ! j) Y)) [0..<n_targets]
         in Inr (map fst fits, map snd fits)))"

text \<open>\<open>_voxel_patlak_chunk\<close>.\<close>

definition voxel_patlak_chunk ::
    "('a list \<Rightarrow> 'a list \<Rightarrow> error + 'a list) \<Rightarrow> ('a \<Rightarrow> bool)
      \<Rightarrow> ('a list \<Rightarrow> 'a list \<Rightarrow> 'a \<times> 'a)
      \<Rightarrow> 'a::{inverse,numeral} list vol \<Rightarrow> 'a list \<Rightarrow> 'a list \<Rightarrow> int
      \<Rightarrow> error + ('a vol \<times> 'a vol)" where
  "voxel_patlak_chunk cumulative_simpson is_finite ols arr input_fun t
       n_frames_linear_regression =
     (case cumulative_simpson input_fun (map (\<lambda>s. s / 60) t) of
        Inl e \<Rightarrow> Inl e
      | Inr integral \<Rightarrow>
     (case np_divide integral input_fun of
        Inl e \<Rightarrow> Inl e
      | Inr X' \<Rightarrow>
     (let X = py_last n_frames_linear_regression X';
          rows = map (at_pos arr) (positions arr);
          Y = py_last n_frames_linear_regression (np_transpose (n_frames arr) rows)
      in case np_divide_column Y (py_last n_frames_linear_regression input_fun) of
           Inl e \<Rightarrow> Inl e
         | Inr Y \<Rightarrow>
             (case linear_regression_fit is_finite ols X Y (length rows) of
                Inl e \<Rightarrow> Inl e
              | Inr (coef, intercept) \<Rightarrow>
                  Inr (mk (nx arr) (ny arr) (nz arr)
                          (\<lambda>x y z. coef ! ((x * ny arr + y) * nz arr + z)),
                       mk (nx arr) (ny arr) (nz arr)
                          (\<lambda>x y z. intercept ! ((x * ny arr + y) * nz arr + z)))))))"

text \<open>The last \<open>k\<close> elements of a list, all of them when it has fewer.\<close>

definition trailing :: "nat \<Rightarrow> 'a list \<Rightarrow> 'a list" where
  "trailing k xs = drop (length xs - k) xs"

section \<open>Patlak fit of a dynamic image, chunk by chunk (patlak.py)\<close>

text \<open>The positions that the Python slice \<open>[a:b]\<close> selects on an axis of length \<open>n\<close>.\<close>

definition py_slice :: "nat \<Rightarrow> int \<Rightarrow> int \<Rightarrow> nat list" where
  "py_slice n a b =
     (let lo = (if a < 0 then max 0 (int n + a) else min (int n) a);
          hi = (if b < 0 then max 0 (int n + b) else min (int n) b)
      in [nat lo ..< nat hi])"

text \<open>\<open>v[..., a:b, :]\<close>: the slice of a dynamic image along its last spatial axis.\<close>

definition axial_window :: "'a vol \<Rightarrow> int \<Rightarrow> int \<Rightarrow> 'a vol" where
  "axial_window v a b =
     (let idx = py_slice (nz v) a b
      in mk (nx v) (ny v) (length idx) (\<lambda>x y k. voxel v x y (idx ! k)))"

text \<open>\<open>v[..., -k:]\<close>: the last frames of the series of every voxel.\<close>

definition last_frames :: "int \<Rightarrow> 'a list vol \<Rightarrow> 'a list vol" where
  "last_frames k v = mk (nx v) (ny v) (nz v) (\<lambda>x y z. py_last k (voxel v x y z))"

text \<open>
  \<open>out[..., a:b] = src\<close>, with numpy's broadcasting of an axis of length 1; shapes that
  do not fit raise \<open>ValueError\<close>.
\<close>

definition assign_axial :: "'a vol \<Rightarrow> int \<Rightarrow> int \<Rightarrow> 'a vol \<Rightarrow> error + 'a vol" where
  "assign_axial out a b src =
     (let idx = py_slice (nz out) a b
      in if (nx src = nx out \<or> nx src = 1) \<and> (ny src = ny out \<or> ny src = 1)
            \<and> (nz src = length idx \<or> nz src = 1)
         then Inr (mk (nx out) (ny out) (nz out)
                (\<lambda>x y z. if z \<in> set idx
                   then voxel src (if nx src = nx out then x else 0)
                                  (if ny src = ny out then y else 0)
                                  (if nz src = length idx then z - hd idx else 0)
                   else voxel out x y z))
         else Inl ValueError)"

text \<open>
  The chunk that the fit of one step sees: the read window of the step restricted to
  the last frames, smoothed as a whole when a filter size is given, then cut to the
  valid part. \<open>gaussian_filter\<close> (scipy) is a parameter.
\<close>

definition valid_chunk ::
    "('a list vol \<Rightarrow> int \<Rightarrow> 'a list vol) \<Rightarrow> 'a list vol \<Rightarrow> int \<Rightarrow> int \<Rightarrow> chunk \<Rightarrow> 'a list vol" where
  "valid_chunk gaussian_filter img gaussian_filter_size n_frames_linear_regression c =
     (let chunk = last_frames n_frames_linear_regression
                    (axial_window img (read_start c) (read_end c));
          chunk = (if 0 < gaussian_filter_size then gaussian_filter chunk gaussian_filter_size
                   else chunk)
      in axial_window chunk (valid_start c) (valid_end c))"

text \<open>The loop of \<open>voxel_patlak\<close> over the steps of the iterator.\<close>

fun patlak_steps ::
    "('a list \<Rightarrow> 'a list \<Rightarrow> error + 'a list) \<Rightarrow> ('a \<Rightarrow> bool)
      \<Rightarrow> ('a list \<Rightarrow> 'a list \<Rightarrow> 'a \<times> 'a)
      \<Rightarrow> ('a list vol \<Rightarrow> int \<Rightarrow> 'a list vol)
      \<Rightarrow> 'a::{inverse,numeral,zero} list vol \<Rightarrow> 'a list \<Rightarrow> 'a list \<Rightarrow> int \<Rightarrow> int
      \<Rightarrow> chunk list \<Rightarrow> 'a vol \<Rightarrow> error + 'a vol" where
  "patlak_steps cumulative_simpson is_finite ols gaussian_filter img input_fun t
       gaussian_filter_size n_frames_linear_regression [] out = Inr out"
| "patlak_steps cumulative_simpson is_finite ols gaussian_filter img input_fun t
       gaussian_filter_size n_frames_linear_regression (c # steps) out =
     (case voxel_patlak_chunk cumulative_simpson is_finite ols
             (valid_chunk gaussian_filter img gaussian_filter_size n_frames_linear_regression c)
             input_fun t n_frames_linear_regression of
        Inl e \<Rightarrow> Inl e
      | Inr (slopes, intercepts) \<Rightarrow>
          (case assign_axial out (write_start c) (write_start c + write_size c) slopes of
             Inl e \<Rightarrow> Inl e
           | Inr out' \<Rightarrow>
               patlak_steps cumulative_simpson is_finite ols gaussian_filter img input_fun t
                 gaussian_filter_size n_frames_linear_regression steps out'))"

text \<open>\<open>voxel_patlak\<close>.\<close>

definition voxel_patlak ::
    "('a list \<Rightarrow> 'a list \<Rightarrow> error + 'a list) \<Rightarrow> ('a \<Rightarrow> bool)
      \<Rightarrow> ('a list \<Rightarrow> 'a list \<Rightarrow> 'a \<times> 'a)
      \<Rightarrow> ('a list vol \<Rightarrow> int \<Rightarrow> 'a list vol)
      \<Rightarrow> 'a::{inverse,numeral,zero} list vol \<Rightarrow> 'a list \<Rightarrow> 'a list \<Rightarrow> int \<Rightarrow> int \<Rightarrow> int
      \<Rightarrow> error + 'a vol" where
  "voxel_patlak cumulative_simpson is_finite ols gaussian_filter img input_fun t
       gaussian_filter_size n_frames_linear_regression axial_chunk_size =
     (let out = mk (nx img) (ny img) (nz img) (\<lambda>x y z. 0);
          border_size = (if 0 < gaussian_filter_size then 3 * gaussian_filter_size else 0);
          chunk_iterator = OverlappedChunkIterator (int (nz img)) axial_chunk_size border_size
      in patlak_steps cumulative_simpson is_finite ols gaussian_filter img input_fun t
           gaussian_filter_size n_frames_linear_regression chunk_iterator out)"

text \<open>
  The slope that the specification gives for a voxel: the least-squares slope, against
  the last \<open>k\<close> entries of the integral divided by the input function, of the last \<open>k\<close>
  values of the voxel divided by the last \<open>k\<close> values of the input function.
\<close>

definition patlak_slope ::
    "('a::inverse list \<Rightarrow> 'a list \<Rightarrow> 'a \<times> 'a) \<Rightarrow> nat \<Rightarrow> 'a list \<Rightarrow> 'a list \<Rightarrow> 'a list \<Rightarrow> 'a" where
  "patlak_slope ols k integral input_fun series =
     fst (ols (trailing k (map (\<lambda>(i, f). i / f) (zip integral input_fun)))
              (map (\<lambda>(a, f). a / f) (zip (trailing k series) (trailing k input_fun))))"

section \<open>Example inputs\<close>



text \<open>
  A zone that fills a 3 by 3 by 4 volume, with uniform activity 1; with voxels of
  5 by 5 by 4 mm the target of 1 mL is 10 voxels, two slices of width 3.
\<close>

definition c10_zone :: "bool vol" where
  "c10_zone = mk 3 3 4 (\<lambda>x y z. True)"

definition c10_activity :: "rat vol" where
  "c10_activity = mk 3 3 4 (\<lambda>x y z. 1)"

definition c10_seeded :: "bool vol" where
  "c10_seeded =
     \<lparr>nx = 3, ny = 3, nz = 4,
      vox = [[[False, False, False, False], [False, False, False, False],
              [False, False, False, False]],
             [[False, False, False, False], [True, False, False, True],
              [False, False, False, False]],
             [[False, False, False, False], [False, False, False, False],
              [False, False, False, False]]]\<rparr>"

definition c10_voi :: "bool vol" where
  "c10_voi =
     \<lparr>nx = 3, ny = 3, nz = 4,
      vox = [[[True, False, False, True], [True, False, False, True],
              [True, False, False, True]],
             [[True, False, False, True], [True, False, False, True],
              [True, False, False, True]],
             [[True, False, False, True], [True, False, False, True],
              [True, False, False, True]]]\<rparr>"

text \<open>
  A mask of 3 by 1 by 8 voxels: a descending tube along the axial axis at \<open>x = 0\<close>, an
  ascending tube at \<open>x = 2\<close> from slice 2 on, and an arch joining them in slices 6
  and 7. Its slices hold 1, 1, 2, 2, 2, 2, 1, 1 components.
\<close>

definition j_mask :: "int vol" where
  "j_mask =
     \<lparr>nx = 3, ny = 1, nz = 8,
      vox = [[[1, 1, 1, 1, 1, 1, 1, 1]], [[0, 0, 0, 0, 0, 0, 1, 1]], [[0, 0, 1, 1, 1, 1, 1, 1]]]\<rparr>"

definition j_labeled :: "nat vol" where
  "j_labeled =
     \<lparr>nx = 3, ny = 1, nz = 8,
      vox = [[[1, 1, 1, 1, 1, 1, 0, 0]], [[0, 0, 0, 0, 0, 0, 0, 0]], [[0, 0, 2, 2, 2, 2, 0, 0]]]\<rparr>"

definition j_segments :: "int vol" where
  "j_segments =
     \<lparr>nx = 3, ny = 1, nz = 8,
      vox = [[[4, 4, 3, 3, 3, 3, 2, 2]], [[0, 0, 0, 0, 0, 0, 2, 2]], [[0, 0, 1, 1, 1, 1, 2, 2]]]\<rparr>"

text \<open>
  A dynamic image of one frame with activity 1 in every voxel, and the affine of
  cubic voxels of 10 mm, for which the target of 1 mL is one voxel.
\<close>

definition j_dpet :: "rat list vol" where
  "j_dpet = mk 3 1 8 (\<lambda>x y z. [1])"

definition j_affine :: "rat list list" where
  "j_affine = [[10, 0, 0, 0], [0, 10, 0, 0], [0, 0, 10, 0], [0, 0, 0, 1]]"

definition j_pet :: "rat vol" where
  "j_pet = mk 3 1 8 (\<lambda>x y z. 1)"

definition j_vois :: "int vol" where
  "j_vois =
     \<lparr>nx = 3, ny = 1, nz = 8,
      vox = [[[4, 0, 3, 0, 0, 2, 2, 2]], [[4, 0, 3, 0, 0, 2, 2, 2]], [[0, 0, 1, 0, 0, 2, 2, 2]]]\<rparr>"

text \<open>
  Instances of the two library routines over the rationals, for a run of the chunk fit:
  the least-squares line through the points \<open>(x, y)\<close>, and the cumulative integral by
  the trapezoid rule as a stand-in for Simpson's.
\<close>

definition mean :: "rat list \<Rightarrow> rat" where
  "mean xs = sum_list xs / of_nat (length xs)"

definition least_squares :: "rat list \<Rightarrow> rat list \<Rightarrow> rat \<times> rat" where
  "least_squares xs ys =
     (let slope = sum_list (map (\<lambda>(x, y). (x - mean xs) * (y - mean ys)) (zip xs ys))
                  / sum_list (map (\<lambda>x. (x - mean xs) ^ 2) xs)
      in (slope, mean ys - slope * mean xs))"

fun trapezoid_from :: "rat \<Rightarrow> rat list \<Rightarrow> rat list \<Rightarrow> rat list" where
  "trapezoid_from acc (y0 # y1 # ys) (x0 # x1 # xs) =
     (let acc' = acc + (x1 - x0) * (y0 + y1) / 2
      in acc' # trapezoid_from acc' (y1 # ys) (x1 # xs))"
| "trapezoid_from acc ys xs = []"

definition cumulative_trapezoid :: "rat list \<Rightarrow> rat list \<Rightarrow> error + rat list" where
  "cumulative_trapezoid y x =
     (if length y \<noteq> length x \<or> y = [] then Inl ValueError
      else Inr (0 # trapezoid_from 0 y x))"

text \<open>
  A mask of 5 by 1 by 11 voxels whose slices hold 1, 1, 1, 3, 2, 1, 2, 2, 1, 1, 1
  components: slice 3 holds a spurious third fragment and slice 5 a bridge that joins
  the two tubes for one slice.
\<close>

definition noisy_mask :: "int vol" where
  "noisy_mask =
     \<lparr>nx = 5, ny = 1, nz = 11,
      vox = [[[1, 1, 1, 1, 1, 1, 1, 1, 1, 1, 1]],
             [[0, 0, 0, 0, 0, 1, 0, 0, 0, 0, 0]],
             [[0, 0, 0, 1, 1, 1, 1, 1, 0, 0, 0]],
             [[0, 0, 0, 0, 0, 0, 0, 0, 0, 0, 0]],
             [[0, 0, 0, 1, 0, 0, 0, 0, 0, 0, 0]]]\<rparr>"

text \<open>
  A dynamic image of 1 by 1 by 3 voxels and four frames, fitted in chunks of two slices
  over the last two frames.
\<close>

definition patlak_img :: "rat list vol" where
  "patlak_img =
     \<lparr>nx = 1, ny = 1, nz = 3, vox = [[[[0, 2, 6, 13], [1, 1, 4, 7], [5, 3, 2, 2]]]]\<rparr>"

section \<open>Arrays: reading what was built\<close>

lemma voxel_mk:
  assumes "x < a" and "y < b" and "z < c"
  shows "voxel (mk a b c f) x y z = f x y z"
  using assms by (simp add: voxel_def mk_def)

lemma shape_mk: "nx (mk a b c f) = a" "ny (mk a b c f) = b" "nz (mk a b c f) = c"
  by (simp_all add: mk_def)

lemma set_positions:
  "set (positions v) = {p. fst p < nx v \<and> fst (snd p) < ny v \<and> snd (snd p) < nz v}"
proof -
  have "\<And>a b c. ((a, b, c) \<in> set (positions v)) = (a < nx v \<and> b < ny v \<and> c < nz v)"
    unfolding positions_def by (auto simp add: image_iff)
  then show ?thesis by auto
qed

section \<open>Properties of the pattern search\<close>

lemma sliding_window_nth:
  assumes "i + w \<le> length a"
  shows "(take w (drop i a) = p) = (length p = w \<and> (\<forall>j<w. a ! (i + j) = p ! j))"
proof -
  have len: "length (take w (drop i a)) = w" using assms by simp
  have nth: "\<And>j. j < w \<Longrightarrow> take w (drop i a) ! j = a ! (i + j)"
    using assms by simp
  show ?thesis
    unfolding list_eq_iff_nth_eq [of "take w (drop i a)" p] len
    using nth by auto
qed

lemma filter_map_nth_upt:
  "filter (\<lambda>i. map f [0..<n] ! i = p) [0..<n] = filter (\<lambda>i. f i = p) [0..<n]"
  by (rule filter_cong) auto

lemma length_filter_upt_card:
  "length (filter P [0..<n]) = card {i. i < n \<and> P i}"
proof -
  have "distinct (filter P [0..<n])" by simp
  then have "card (set (filter P [0..<n])) = length (filter P [0..<n])"
    by (rule distinct_card)
  moreover have "set (filter P [0..<n]) = {i. i < n \<and> P i}" by auto
  ultimately show ?thesis by simp
qed

lemma occurrences_as_windows:
  assumes "length p \<le> length a" and "n = length a - length p + 1"
  shows "{i. i < n \<and> take (length p) (drop i a) = p} = pattern_occurrences a p"
proof -
  have "\<And>i. i < n \<Longrightarrow> (take (length p) (drop i a) = p) = (\<forall>j<length p. a ! (i + j) = p ! j)"
  proof -
    fix i assume "i < n"
    then have "i + length p \<le> length a" using assms by linarith
    from sliding_window_nth [OF this, of p]
    show "(take (length p) (drop i a) = p) = (\<forall>j<length p. a ! (i + j) = p ! j)" by simp
  qed
  moreover have "\<And>i. (i < n) = (i + length p \<le> length a)"
    using assms by linarith
  ultimately show ?thesis
    unfolding pattern_occurrences_def by blast
qed

lemma no_occurrence_if_short:
  assumes "length a < length p"
  shows "pattern_occurrences a p = {}"
  using assms unfolding pattern_occurrences_def by auto

lemma find_pattern_transition_unfold:
  assumes "length p \<le> length a"
  shows "find_pattern_transition a p =
     (let indices = filter (\<lambda>i. take (length p) (drop i a) = p) [0..<length a - length p + 1]
      in if length indices \<noteq> 1 then Inl ValueError
         else Inr (int (indices ! 0) + int (length p div 2)))"
proof -
  define n where "n = length a - length p + 1"
  have "sliding_window_view a (length p) = Inr (map (\<lambda>i. take (length p) (drop i a)) [0..<n])"
    using assms unfolding sliding_window_view_def n_def by simp
  then show ?thesis
    unfolding find_pattern_transition_def n_def [symmetric]
    by (simp only: sum.case length_map length_upt minus_nat.diff_0 filter_map_nth_upt)
qed

lemma match_count:
  assumes "length p \<le> length a"
  shows "length (filter (\<lambda>i. take (length p) (drop i a) = p) [0..<length a - length p + 1])
         = card (pattern_occurrences a p)"
proof -
  define n where "n = length a - length p + 1"
  have "length (filter (\<lambda>i. take (length p) (drop i a) = p) [0..<n])
        = card {i. i < n \<and> take (length p) (drop i a) = p}"
    by (rule length_filter_upt_card)
  also have "\<dots> = card (pattern_occurrences a p)"
    using occurrences_as_windows [OF assms n_def] by simp
  finally show ?thesis unfolding n_def .
qed

text \<open>
  C3. The pattern search raises its exception (\<open>ValueError\<close> in the code) exactly when
  the number of occurrences of the pattern in the signal is not one; on exactly one
  occurrence it returns an index.
\<close>

theorem find_pattern_transition_raises_iff:
  "(find_pattern_transition a p = Inl ValueError) = (card (pattern_occurrences a p) \<noteq> 1)
   \<and> ((\<exists>k. find_pattern_transition a p = Inr k) = (card (pattern_occurrences a p) = 1))
   \<and> (\<forall>e. find_pattern_transition a p = Inl e \<longrightarrow> e = ValueError)"
proof (cases "length a < length p")
  case True
  then show ?thesis
    by (simp add: find_pattern_transition_def sliding_window_view_def no_occurrence_if_short)
next
  case False
  then have le: "length p \<le> length a" by simp
  define ix where "ix = filter (\<lambda>i. take (length p) (drop i a) = p) [0..<length a - length p + 1]"
  have f: "find_pattern_transition a p =
     (if length ix \<noteq> 1 then Inl ValueError else Inr (int (ix ! 0) + int (length p div 2)))"
    unfolding ix_def using find_pattern_transition_unfold [OF le] by (simp only: Let_def)
  have c: "length ix = card (pattern_occurrences a p)"
    unfolding ix_def by (rule match_count [OF le])
  show ?thesis
  proof (cases "length ix = 1")
    case True
    then show ?thesis using f c by simp
  next
    case False
    then show ?thesis using f c by simp
  qed
qed

theorem find_pattern_transition_raises_iff_witness:
  "find_pattern_transition [1, 1, 2, 2, 2, 2, 1, 1] [1, 1, 2, 2] = Inr 2
   \<and> card (pattern_occurrences [1, 1, 2, 2, 2, 2, 1, 1] [1, 1, 2, 2]) = 1
   \<and> find_pattern_transition [1, 1, 2, 2, 1, 1, 2, 2] [1, 1, 2, 2] = Inl ValueError
   \<and> card (pattern_occurrences [1, 1, 2, 2, 1, 1, 2, 2] [1, 1, 2, 2]) \<noteq> 1"
proof -
  have a: "find_pattern_transition [1, 1, 2, 2, 2, 2, 1, 1] [1, 1, 2, 2] = Inr 2"
    by code_simp
  have b: "find_pattern_transition [1, 1, 2, 2, 1, 1, 2, 2] [1, 1, 2, 2] = Inl ValueError"
    by code_simp
  from a find_pattern_transition_raises_iff [of "[1, 1, 2, 2, 2, 2, 1, 1]" "[1, 1, 2, 2]"]
  have "card (pattern_occurrences [1, 1, 2, 2, 2, 2, 1, 1] [1, 1, 2, 2]) = 1" by blast
  moreover from b find_pattern_transition_raises_iff [of "[1, 1, 2, 2, 1, 1, 2, 2]" "[1, 1, 2, 2]"]
  have "card (pattern_occurrences [1, 1, 2, 2, 1, 1, 2, 2] [1, 1, 2, 2]) \<noteq> 1" by blast
  ultimately show ?thesis using a b by blast
qed

section \<open>Properties of the chunk iterator\<close>

lemma write_range_chunk_at:
  "write_range (chunk_at L C B i) = [int i * C .. min L ((int i + 1) * C) - 1]"
  by (simp add: write_range_def chunk_at_def Let_def)

lemma chunks_write_concat:
  assumes "0 < C"
  shows "concat (map write_range (chunks_from L C B i)) = [int i * C .. L - 1]"
  using assms
proof (induction L C B i rule: chunks_from.induct)
  case (1 L C B i)
  have suc: "int (Suc i) * C = (int i + 1) * C" by simp
  show ?case
  proof (cases "L \<le> int i * C")
    case True
    then show ?thesis by (subst chunks_from.simps) simp
  next
    case False
    with "1.prems" have live: "\<not> (C \<le> 0 \<or> L \<le> int i * C)" by simp
    have ih: "concat (map write_range (chunks_from L C B (Suc i))) = [(int i + 1) * C .. L - 1]"
      using "1.IH" [OF live "1.prems"] unfolding suc .
    have grow: "int i * C < (int i + 1) * C" using "1.prems" by (simp add: distrib_right)
    have unfold: "chunks_from L C B i = chunk_at L C B i # chunks_from L C B (Suc i)"
      using live by (subst chunks_from.simps) simp
    show ?thesis
    proof (cases "(int i + 1) * C < L")
      case True
      then have m: "min L ((int i + 1) * C) = (int i + 1) * C" by simp
      have "[int i * C .. L - 1] = [int i * C .. (int i + 1) * C - 1] @ [(int i + 1) * C .. L - 1]"
        by (rule upto_split1) (use grow True in linarith)+
      then show ?thesis
        unfolding unfold by (simp only: list.map concat.simps write_range_chunk_at m ih)
    next
      case False
      then have m: "min L ((int i + 1) * C) = L" by simp
      have "[(int i + 1) * C .. L - 1] = []" using False by simp
      then show ?thesis
        unfolding unfold by (simp only: list.map concat.simps write_range_chunk_at m ih append_Nil2)
    qed
  qed
qed

lemma chunks_from_nth:
  "k < length (chunks_from L C B i) \<Longrightarrow> chunks_from L C B i ! k = chunk_at L C B (i + k)"
proof (induction L C B i arbitrary: k rule: chunks_from.induct)
  case (1 L C B i)
  show ?case
  proof (cases "C \<le> 0 \<or> L \<le> int i * C")
    case True
    then have "chunks_from L C B i = []" by (subst chunks_from.simps) simp
    with "1.prems" show ?thesis by simp
  next
    case False
    then have unfold: "chunks_from L C B i = chunk_at L C B i # chunks_from L C B (Suc i)"
      by (subst chunks_from.simps) simp
    show ?thesis
    proof (cases k)
      case 0
      then show ?thesis unfolding unfold by simp
    next
      case (Suc k')
      with "1.prems" have "k' < length (chunks_from L C B (Suc i))" unfolding unfold by simp
      from "1.IH" [OF False this] show ?thesis unfolding unfold Suc by simp
    qed
  qed
qed

lemma read_window_chunk_at:
  "read_window (chunk_at L C B i) \<subseteq> {0..<L}"
  by (auto simp add: read_window_def chunk_at_def Let_def)

text \<open>
  C4. For a positive length \<open>L\<close>, a positive chunk size \<open>C\<close> and a border \<open>B \<ge> 0\<close>,
  step \<open>k\<close> of the iterator writes \<open>[k*C, min(L, (k+1)*C))\<close> and reads
  \<open>[max(0, k*C - B), min(L, k*C + C + B))\<close>; the write ranges, one after the other,
  enumerate \<open>0, \<dots>, L - 1\<close> once each (no gap, no overlap), and every read window lies
  inside \<open>[0, L)\<close>.
\<close>

theorem chunk_iterator_partition:
  assumes "0 < L" and "0 < C" and "0 \<le> B"
  shows "concat (map write_range (OverlappedChunkIterator L C B)) = [0 .. L - 1]
    \<and> (\<forall>k<length (OverlappedChunkIterator L C B).
          write_start (OverlappedChunkIterator L C B ! k) = int k * C
        \<and> write_start (OverlappedChunkIterator L C B ! k)
            + write_size (OverlappedChunkIterator L C B ! k) = min L ((int k + 1) * C)
        \<and> read_start (OverlappedChunkIterator L C B ! k) = max 0 (int k * C - B)
        \<and> read_end (OverlappedChunkIterator L C B ! k) = min L (int k * C + C + B)
        \<and> read_window (OverlappedChunkIterator L C B ! k) \<subseteq> {0..<L})"
proof -
  have "concat (map write_range (chunks_from L C B 0)) = [0 .. L - 1]"
    using chunks_write_concat [OF assms(2), of L B 0] by simp
  moreover have "\<And>k. k < length (chunks_from L C B 0) \<Longrightarrow>
      chunks_from L C B 0 ! k = chunk_at L C B k"
    using chunks_from_nth [of _ L C B 0] by simp
  ultimately show ?thesis
    unfolding OverlappedChunkIterator_def
    using read_window_chunk_at [of L C B]
    by (simp add: chunk_at_def Let_def)
qed

theorem chunk_iterator_partition_witness:
  "(0::int) < 20 \<and> (0::int) < 8 \<and> (0::int) \<le> 3
   \<and> map write_range (OverlappedChunkIterator 20 8 3) = [[0 .. 7], [8 .. 15], [16 .. 19]]
   \<and> concat (map write_range (OverlappedChunkIterator 20 8 3)) = [0 .. 19]
   \<and> map read_start (OverlappedChunkIterator 20 8 3) = [0, 5, 13]
   \<and> map read_end (OverlappedChunkIterator 20 8 3) = [11, 19, 20]"
proof -
  have steps: "OverlappedChunkIterator 20 8 3 =
      [chunk_at 20 8 3 0, chunk_at 20 8 3 1, chunk_at 20 8 3 2]"
    by code_simp
  have "concat (map write_range (OverlappedChunkIterator 20 8 3)) = [0 .. 20 - 1]"
    using chunk_iterator_partition [of 20 8 3] by simp
  then show ?thesis
    unfolding steps by (simp add: chunk_at_def write_range_def Let_def)
qed

section \<open>Properties of the uptake refinement\<close>







section \<open>Properties of the placement of the volume of interest\<close>




lemma create_cylindrical_voi_unfold:
  assumes "target_voxels voxel_size volume_ml = Inr target"
    and "n_slices_needed target cylinder_width = Inr n"
    and "same_shape aorta_segment pet"
    and "start_slice aorta_segment pet n = Inr start"
  shows "create_cylindrical_voi aorta_segment pet voxel_size volume_ml cylinder_width =
     (case place_seeds
             (mk (nx pet) (ny pet) (nz pet)
                 (\<lambda>x y z. if voxel aorta_segment x y z then voxel pet x y z else 0))
             (mk (nx aorta_segment) (ny aorta_segment) (nz aorta_segment) (\<lambda>x y z. False))
             [start .. start + n - 1] of
        Inl e \<Rightarrow> Inl e
      | Inr voi \<Rightarrow> if cylinder_width < 0 then Inl ValueError
                   else Inr (binary_dilation voi cylinder_width))"
  unfolding create_cylindrical_voi_def using assms by (simp add: Let_def)


lemma c10_target: "target_voxels [5, 5, 4] 1 = Inr 10"
  by code_simp

lemma c10_slices: "n_slices_needed 10 3 = Inr 2"
  by code_simp

lemma c10_start: "start_slice c10_zone c10_activity 2 = Inr (- 1)"
  by code_simp

lemma c10_shape: "same_shape c10_zone c10_activity"
  by code_simp

lemma c10_seeds:
  "place_seeds (mk (nx c10_activity) (ny c10_activity) (nz c10_activity)
                   (\<lambda>x y z. if voxel c10_zone x y z then voxel c10_activity x y z else 0))
               (mk (nx c10_zone) (ny c10_zone) (nz c10_zone) (\<lambda>x y z. False))
               [- 1 .. - 1 + 2 - 1]
   = Inr c10_seeded"
  by code_simp

lemma c10_dilated: "binary_dilation c10_seeded 3 = c10_voi"
  by code_simp



text \<open>
  C10. On a zone with uniform activity the moving average peaks at position 0; with
  two slices needed the window starts at \<open>-1\<close>. The seed loop then indexes slice
  \<open>-1\<close>, which Python reads as the last slice (position 3 of 4): the call returns, and
  the volume of interest consists of the slices 3 and 0, not of the slices 0 and 1.
\<close>

theorem negative_start_slice_wraps:
  "start_slice c10_zone c10_activity 2 = Inr (- 1)
   \<and> py_index (nz c10_activity) (- 1) = Inr 3
   \<and> create_cylindrical_voi c10_zone c10_activity [5, 5, 4] 1 3 = Inr c10_voi
   \<and> voxel c10_voi 1 1 3 \<and> voxel c10_voi 1 1 0
   \<and> \<not> voxel c10_voi 1 1 1 \<and> \<not> voxel c10_voi 1 1 2"
proof -
  have "create_cylindrical_voi c10_zone c10_activity [5, 5, 4] 1 3 = Inr c10_voi"
    using create_cylindrical_voi_unfold [OF c10_target c10_slices c10_shape c10_start]
    by (simp only: c10_seeds sum.case c10_dilated) simp
  moreover have "py_index (nz c10_activity) (- 1) = Inr 3" by code_simp
  moreover have "voxel c10_voi 1 1 3 \<and> voxel c10_voi 1 1 0
      \<and> \<not> voxel c10_voi 1 1 1 \<and> \<not> voxel c10_voi 1 1 2"
    by code_simp
  ultimately show ?thesis using c10_start by simp
qed

theorem negative_start_slice_wraps_witness:
  "\<exists>voi. create_cylindrical_voi c10_zone c10_activity [5, 5, 4] 1 3 = Inr voi
     \<and> voxel voi 1 1 3 \<and> \<not> voxel voi 1 1 1"
  using negative_start_slice_wraps by blast

section \<open>Properties of the component labelling\<close>

lemma grow_contains: "set region \<subseteq> set (grow adj pts n region)"
proof (induction n arbitrary: region)
  case 0
  show ?case by simp
next
  case (Suc n)
  let ?new = "filter (\<lambda>p. p \<notin> set region \<and> (\<exists>q\<in>set region. adj q p)) pts"
  show ?case
  proof (cases "?new = []")
    case True
    then show ?thesis by (simp add: Let_def)
  next
    case False
    have "set region \<subseteq> set (region @ ?new)" by simp
    also have "\<dots> \<subseteq> set (grow adj pts n (region @ ?new))" by (rule Suc.IH)
    finally show ?thesis using False by (simp add: Let_def)
  qed
qed

lemma grow_within: "set (grow adj pts n region) \<subseteq> set region \<union> set pts"
proof (induction n arbitrary: region)
  case 0
  show ?case by simp
next
  case (Suc n)
  let ?new = "filter (\<lambda>p. p \<notin> set region \<and> (\<exists>q\<in>set region. adj q p)) pts"
  show ?case
  proof (cases "?new = []")
    case True
    then show ?thesis by (simp add: Let_def)
  next
    case False
    have "set (grow adj pts n (region @ ?new)) \<subseteq> set (region @ ?new) \<union> set pts"
      by (rule Suc.IH)
    also have "\<dots> \<subseteq> set region \<union> set pts" by auto
    finally show ?thesis using False by (simp add: Let_def)
  qed
qed

lemma components_cover: "\<Union> (set ` set (components adj pts)) = set pts"
proof (induction adj pts rule: components.induct)
  case (1 adj)
  show ?case by simp
next
  case (2 adj p ps)
  define c where "c = grow adj ps (length ps) [p]"
  have ih: "\<Union> (set ` set (components adj (filter (\<lambda>q. q \<notin> set c) ps)))
            = set (filter (\<lambda>q. q \<notin> set c) ps)"
    using "2.IH" [OF c_def] .
  have p: "p \<in> set c" using grow_contains [of "[p]" adj ps "length ps"] unfolding c_def by simp
  have within: "set c \<subseteq> insert p (set ps)"
    using grow_within [of adj ps "length ps" "[p]"] unfolding c_def by simp
  have "components adj (p # ps) = c # components adj (filter (\<lambda>q. q \<notin> set c) ps)"
    unfolding c_def by (simp add: Let_def)
  then have "\<Union> (set ` set (components adj (p # ps)))
             = set c \<union> set (filter (\<lambda>q. q \<notin> set c) ps)"
    using ih by simp
  also have "\<dots> = insert p (set ps)" using p within by auto
  finally show ?case by simp
qed

lemma label_from_member:
  assumes "p \<in> \<Union> (set ` set cs)"
  shows "k \<le> label_from k cs p \<and> label_from k cs p < k + length cs"
  using assms
proof (induction cs arbitrary: k)
  case Nil
  then show ?case by simp
next
  case (Cons c cs)
  show ?case
  proof (cases "p \<in> set c")
    case True
    then show ?thesis by simp
  next
    case False
    with Cons.prems have "p \<in> \<Union> (set ` set cs)" by simp
    from Cons.IH [OF this, of "Suc k"] False show ?thesis by simp
  qed
qed

lemma label_from_outside:
  assumes "p \<notin> \<Union> (set ` set cs)"
  shows "label_from k cs p = 0"
  using assms by (induction cs arbitrary: k) auto

lemma label3_voxel:
  assumes "x < nx v" and "y < ny v" and "z < nz v" and "label3 v = (labeled, num)"
  shows "(voxel labeled x y z = 0) = (voxel v x y z = 0) \<and> voxel labeled x y z \<le> num"
proof -
  define pts where "pts = filter (\<lambda>p. at_pos v p \<noteq> 0) (positions v)"
  define comps where "comps = components adjacent3 pts"
  have lab: "labeled = mk (nx v) (ny v) (nz v) (\<lambda>x y z. label_from 1 comps (x, y, z))"
    and num: "num = length comps"
    using assms(4) unfolding label3_def comps_def pts_def by (simp_all add: Let_def)
  have val: "voxel labeled x y z = label_from 1 comps (x, y, z)"
    unfolding lab using assms(1-3) by (rule voxel_mk)
  have cover: "\<Union> (set ` set comps) = set pts"
    unfolding comps_def by (rule components_cover)
  have mem: "((x, y, z) \<in> set pts) = (voxel v x y z \<noteq> 0)"
    unfolding pts_def using assms(1-3) by (simp add: set_positions at_pos_def)
  show ?thesis
  proof (cases "voxel v x y z = 0")
    case True
    then have "(x, y, z) \<notin> \<Union> (set ` set comps)" using cover mem by simp
    then have "label_from 1 comps (x, y, z) = 0" by (rule label_from_outside)
    then show ?thesis using True val by simp
  next
    case False
    then have "(x, y, z) \<in> \<Union> (set ` set comps)" using cover mem by simp
    from label_from_member [OF this, of 1]
    show ?thesis using False val num by simp
  qed
qed

lemma label3_shape:
  assumes "label3 v = (labeled, num)"
  shows "nx labeled = nx v" and "ny labeled = ny v" and "nz labeled = nz v"
  using assms unfolding label3_def by (auto simp add: Let_def shape_mk)

lemma length_filter_less_witness:
  assumes "x \<in> set xs" and "P x" and "\<not> Q x" and "\<And>y. Q y \<Longrightarrow> P y"
  shows "length (filter Q xs) < length (filter P xs)"
  using assms(1)
proof (induction xs)
  case Nil
  then show ?case by simp
next
  case (Cons a xs)
  have le: "length (filter Q xs) \<le> length (filter P xs)"
  proof (induction xs)
    case Nil
    show ?case by simp
  next
    case (Cons b bs)
    then show ?case using assms(4) by auto
  qed
  show ?case
  proof (cases "x = a")
    case True
    then show ?thesis using assms(2,3) le by simp
  next
    case False
    with Cons have "length (filter Q xs) < length (filter P xs)" by simp
    then show ?thesis using assms(4) by auto
  qed
qed

lemma grow_closed:
  assumes "length (filter (\<lambda>p. p \<notin> set region) pts) \<le> n"
  shows "\<forall>q\<in>set (grow adj pts n region). \<forall>p\<in>set pts.
           adj q p \<longrightarrow> p \<in> set (grow adj pts n region)"
  using assms
proof (induction n arbitrary: region)
  case 0
  then have "filter (\<lambda>p. p \<notin> set region) pts = []" by simp
  then have "\<forall>p\<in>set pts. p \<in> set region" by (simp add: filter_empty_conv)
  then show ?case by simp
next
  case (Suc n)
  let ?new = "filter (\<lambda>p. p \<notin> set region \<and> (\<exists>q\<in>set region. adj q p)) pts"
  show ?case
  proof (cases "?new = []")
    case True
    then have "\<forall>p\<in>set pts. \<not> (p \<notin> set region \<and> (\<exists>q\<in>set region. adj q p))"
      by (simp add: filter_empty_conv)
    then show ?thesis using True by (auto simp add: Let_def)
  next
    case False
    then obtain x where x: "x \<in> set ?new" by (cases ?new) auto
    then have xin: "x \<in> set pts" and xout: "x \<notin> set region" by auto
    have "length (filter (\<lambda>p. p \<notin> set (region @ ?new)) pts)
          < length (filter (\<lambda>p. p \<notin> set region) pts)"
    proof (rule length_filter_less_witness
        [where P = "\<lambda>p. p \<notin> set region" and Q = "\<lambda>p. p \<notin> set (region @ ?new)" and x = x])
      show "x \<in> set pts" by (rule xin)
      show "x \<notin> set region" by (rule xout)
      show "\<not> x \<notin> set (region @ ?new)" using x by simp
    next
      fix y assume "y \<notin> set (region @ ?new)"
      then show "y \<notin> set region" by simp
    qed
    with Suc.prems have "length (filter (\<lambda>p. p \<notin> set (region @ ?new)) pts) \<le> n" by simp
    from Suc.IH [OF this] show ?thesis using False by (simp add: Let_def)
  qed
qed

lemma grow_sound:
  assumes "set region \<subseteq> (linked adj S)\<^sup>* `` {p}" and "set region \<subseteq> S" and "set pts \<subseteq> S"
  shows "set (grow adj pts n region) \<subseteq> (linked adj S)\<^sup>* `` {p}"
  using assms
proof (induction n arbitrary: region)
  case 0
  then show ?case by simp
next
  case (Suc n)
  let ?new = "filter (\<lambda>p. p \<notin> set region \<and> (\<exists>q\<in>set region. adj q p)) pts"
  show ?case
  proof (cases "?new = []")
    case True
    then show ?thesis using Suc.prems by (simp add: Let_def)
  next
    case False
    have "set ?new \<subseteq> (linked adj S)\<^sup>* `` {p}"
    proof
      fix x assume "x \<in> set ?new"
      then obtain q where xp: "x \<in> set pts" and q: "q \<in> set region" and a: "adj q x" by auto
      have "(p, q) \<in> (linked adj S)\<^sup>*" using Suc.prems(1) q by auto
      moreover have "(q, x) \<in> linked adj S"
        using q xp a Suc.prems(2,3) by (auto simp add: linked_def)
      ultimately have "(p, x) \<in> (linked adj S)\<^sup>*" by (rule rtrancl_into_rtrancl)
      then show "x \<in> (linked adj S)\<^sup>* `` {p}" by simp
    qed
    then have a: "set (region @ ?new) \<subseteq> (linked adj S)\<^sup>* `` {p}" using Suc.prems(1) by simp
    have b: "set (region @ ?new) \<subseteq> S" using Suc.prems(2,3) by auto
    from Suc.IH [OF a b Suc.prems(3)] show ?thesis using False by (simp add: Let_def)
  qed
qed

lemma grow_component:
  "set (grow adj ps (length ps) [p]) = component_of adj (set (p # ps)) p"
proof
  show "set (grow adj ps (length ps) [p]) \<subseteq> component_of adj (set (p # ps)) p"
    unfolding component_of_def by (rule grow_sound) auto
next
  let ?F = "set (grow adj ps (length ps) [p])"
  have "length (filter (\<lambda>q. q \<notin> set [p]) ps) \<le> length ps" by (rule length_filter_le)
  from grow_closed [OF this, of adj]
  have closed: "\<forall>q\<in>?F. \<forall>r\<in>set ps. adj q r \<longrightarrow> r \<in> ?F" .
  have pF: "p \<in> ?F" using grow_contains [of "[p]" adj ps "length ps"] by simp
  have "\<And>q. (p, q) \<in> (linked adj (set (p # ps)))\<^sup>* \<Longrightarrow> q \<in> ?F"
  proof -
    fix q assume "(p, q) \<in> (linked adj (set (p # ps)))\<^sup>*"
    then show "q \<in> ?F"
    proof (induction rule: rtrancl_induct)
      case base
      show ?case by (rule pF)
    next
      case (step y z)
      from step.hyps(2) have z: "z \<in> set (p # ps)" and a: "adj y z"
        by (auto simp add: linked_def)
      show ?case
      proof (cases "z = p")
        case True
        then show ?thesis using pF by simp
      next
        case False
        with z have "z \<in> set ps" by simp
        with closed step.IH a show ?thesis by blast
      qed
    qed
  qed
  then show "component_of adj (set (p # ps)) p \<subseteq> ?F"
    unfolding component_of_def by auto
qed


lemma sym_linked:
  assumes "symp adj"
  shows "sym (linked adj S)"
  using assms by (auto simp add: sym_def linked_def dest: sympD)

lemma component_of_same:
  assumes "symp adj" and "q \<in> component_of adj S p"
  shows "component_of adj S q = component_of adj S p"
proof -
  let ?E = "linked adj S"
  have pq: "(p, q) \<in> ?E\<^sup>*" using assms(2) by (simp add: component_of_def)
  have "sym (?E\<^sup>*)" using sym_linked [OF assms(1)] by (rule sym_rtrancl)
  then have qp: "(q, p) \<in> ?E\<^sup>*" using pq by (simp add: sym_def)
  show ?thesis
    unfolding component_of_def using pq qp by (auto intro: rtrancl_trans)
qed

lemma component_of_restrict:
  assumes sym: "symp adj"
    and q: "q \<in> S" and out: "q \<notin> component_of adj S p"
  shows "component_of adj (S - component_of adj S p) q = component_of adj S q"
proof
  let ?C = "component_of adj S p"
  have "linked adj (S - ?C) \<subseteq> linked adj S" by (auto simp add: linked_def)
  then have "(linked adj (S - ?C))\<^sup>* \<subseteq> (linked adj S)\<^sup>*" by (rule rtrancl_mono)
  then show "component_of adj (S - ?C) q \<subseteq> component_of adj S q"
    unfolding component_of_def by auto
next
  let ?C = "component_of adj S p"
  have away: "\<And>r. (q, r) \<in> (linked adj S)\<^sup>* \<Longrightarrow> r \<notin> ?C"
  proof
    fix r assume qr: "(q, r) \<in> (linked adj S)\<^sup>*" and "r \<in> ?C"
    then have "r \<in> component_of adj S q" by (simp add: component_of_def)
    then have "component_of adj S r = component_of adj S q" by (rule component_of_same [OF sym])
    moreover from \<open>r \<in> ?C\<close> have "component_of adj S r = ?C" by (rule component_of_same [OF sym])
    moreover have "q \<in> component_of adj S q" by (simp add: component_of_def)
    ultimately show False using out by simp
  qed
  have "\<And>r. (q, r) \<in> (linked adj S)\<^sup>* \<Longrightarrow> (q, r) \<in> (linked adj (S - ?C))\<^sup>*"
  proof -
    fix r assume "(q, r) \<in> (linked adj S)\<^sup>*"
    then show "(q, r) \<in> (linked adj (S - ?C))\<^sup>*"
    proof (induction rule: rtrancl_induct)
      case base
      show ?case by simp
    next
      case (step y z)
      have "y \<notin> ?C" using step.hyps(1) by (rule away)
      moreover have "z \<notin> ?C"
        using rtrancl_into_rtrancl [OF step.hyps(1) step.hyps(2)] by (rule away)
      ultimately have "(y, z) \<in> linked adj (S - ?C)"
        using step.hyps(2) by (auto simp add: linked_def)
      with step.IH show ?case by (rule rtrancl_into_rtrancl)
    qed
  qed
  then show "component_of adj S q \<subseteq> component_of adj (S - ?C) q"
    unfolding component_of_def by auto
qed

lemma component_count_step:
  assumes sym: "symp adj" and fin: "finite S" and p: "p \<in> S"
  shows "component_count adj S = Suc (component_count adj (S - component_of adj S p))"
proof -
  let ?C = "component_of adj S p"
  let ?R = "S - ?C"
  have pc: "p \<in> ?C" by (simp add: component_of_def)
  have inside: "\<And>q. q \<in> S \<Longrightarrow> q \<in> ?C \<Longrightarrow> component_of adj S q = ?C"
    by (rule component_of_same [OF sym])
  have outside: "\<And>q. q \<in> ?R \<Longrightarrow> component_of adj ?R q = component_of adj S q"
    using component_of_restrict [OF sym] by simp
  have "component_of adj S ` S = insert ?C (component_of adj ?R ` ?R)"
  proof
    show "component_of adj S ` S \<subseteq> insert ?C (component_of adj ?R ` ?R)"
    proof
      fix D assume "D \<in> component_of adj S ` S"
      then obtain q where q: "q \<in> S" and D: "D = component_of adj S q" by auto
      show "D \<in> insert ?C (component_of adj ?R ` ?R)"
      proof (cases "q \<in> ?C")
        case True
        then show ?thesis using inside [OF q] D by simp
      next
        case False
        then have "q \<in> ?R" using q by simp
        then show ?thesis using outside D by auto
      qed
    qed
  next
    show "insert ?C (component_of adj ?R ` ?R) \<subseteq> component_of adj S ` S"
      using p outside by auto
  qed
  moreover have "?C \<notin> component_of adj ?R ` ?R"
  proof
    assume "?C \<in> component_of adj ?R ` ?R"
    then obtain q where q: "q \<in> ?R" and e: "?C = component_of adj ?R q" by auto
    have "q \<in> component_of adj ?R q" by (simp add: component_of_def)
    then show False using q e by simp
  qed
  moreover have "finite (component_of adj ?R ` ?R)" using fin by simp
  ultimately show ?thesis unfolding component_count_def by simp
qed

lemma components_count:
  assumes sym: "symp adj"
  shows "length (components adj pts) = component_count adj (set pts)"
  using assms
proof (induction adj pts rule: components.induct)
  case (1 adj)
  show ?case by (simp add: component_count_def)
next
  case (2 adj p ps)
  define c where "c = grow adj ps (length ps) [p]"
  have cset: "set c = component_of adj (set (p # ps)) p"
    unfolding c_def by (rule grow_component)
  have rest: "set (filter (\<lambda>q. q \<notin> set c) ps) = set (p # ps) - component_of adj (set (p # ps)) p"
    unfolding cset [symmetric] using grow_contains [of "[p]" adj ps "length ps"]
    unfolding c_def by auto
  have ih: "length (components adj (filter (\<lambda>q. q \<notin> set c) ps))
            = component_count adj (set (filter (\<lambda>q. q \<notin> set c) ps))"
    using "2.IH" [OF c_def "2.prems"] .
  have "components adj (p # ps) = c # components adj (filter (\<lambda>q. q \<notin> set c) ps)"
    unfolding c_def by (simp add: Let_def)
  then have "length (components adj (p # ps))
      = Suc (component_count adj (set (p # ps) - component_of adj (set (p # ps)) p))"
    using ih rest by simp
  also have "\<dots> = component_count adj (set (p # ps))"
    using component_count_step [OF "2.prems", of "set (p # ps)" p] by simp
  finally show ?case .
qed








lemma adjacent2_four_neighbours: "adjacent2 = four_neighbours"
proof (intro ext)
  fix p q :: "nat \<times> nat"
  show "adjacent2 p q = four_neighbours p q"
    unfolding adjacent2_def four_neighbours_def step_apart_def by (auto split: if_splits)
qed

lemma symp_four_neighbours: "symp four_neighbours"
  by (auto simp add: symp_def four_neighbours_def)

lemma slice_points:
  "set (concat (map (\<lambda>x. map (\<lambda>y. (x, y))
           (filter (\<lambda>y. axial_slice v z ! x ! y \<noteq> 0) [0..<length (axial_slice v z ! x)]))
           [0..<length (axial_slice v z)]))
   = slice_foreground v z"
proof -
  have len: "length (axial_slice v z) = nx v" by (simp add: axial_slice_def)
  have row: "\<And>x. x < nx v \<Longrightarrow> axial_slice v z ! x = map (\<lambda>y. voxel v x y z) [0..<ny v]"
    by (simp add: axial_slice_def)
  show ?thesis
    unfolding len slice_foreground_def using row by auto
qed

lemma count_connected_components_slice:
  "count_connected_components (axial_slice v z) = int (slice_components v z)"
proof -
  define pts where "pts = concat (map (\<lambda>x. map (\<lambda>y. (x, y))
           (filter (\<lambda>y. axial_slice v z ! x ! y \<noteq> 0) [0..<length (axial_slice v z ! x)]))
           [0..<length (axial_slice v z)])"
  have "snd (label2 (axial_slice v z)) = length (components adjacent2 pts)"
    unfolding label2_def pts_def by (simp add: Let_def)
  also have "\<dots> = length (components four_neighbours pts)"
    by (simp only: adjacent2_four_neighbours)
  also have "\<dots> = component_count four_neighbours (set pts)"
    using symp_four_neighbours by (rule components_count)
  also have "set pts = slice_foreground v z" unfolding pts_def by (rule slice_points)
  finally show ?thesis
    unfolding count_connected_components_def slice_components_def by simp
qed

lemma sort_five:
  fixes w :: "int list"
  assumes "length w = 5"
  shows "median_of_five w (sort w ! 2)"
proof -
  define s where "s = sort w"
  have ls: "length s = 5" unfolding s_def using assms by simp
  then obtain a b c d e where s: "s = [a, b, c, d, e]"
    by (cases s; simp; rename_tac t, case_tac t; simp; rename_tac t, case_tac t; simp;
        rename_tac t, case_tac t; simp; rename_tac t, case_tac t; simp)
  have "sorted s" unfolding s_def by simp
  then have ord: "a \<le> b" "b \<le> c" "c \<le> d" "d \<le> e" unfolding s by simp_all
  have m: "s ! 2 = c" unfolding s by simp
  have lo: "3 \<le> length (filter (\<lambda>x. x \<le> c) s)" unfolding s using ord by simp
  have hi: "3 \<le> length (filter (\<lambda>x. c \<le> x) s)" unfolding s using ord by simp
  have f1: "length (filter (\<lambda>x. x \<le> c) w) = length (filter (\<lambda>x. x \<le> c) s)"
    unfolding s_def by (simp add: filter_sort)
  have f2: "length (filter (\<lambda>x. c \<le> x) w) = length (filter (\<lambda>x. c \<le> x) s)"
    unfolding s_def by (simp add: filter_sort)
  have "c \<in> set s" unfolding s by simp
  then have "c \<in> set w" unfolding s_def by simp
  then show ?thesis
    unfolding median_of_five_def s_def [symmetric] m using lo hi f1 f2 by simp
qed

lemma reflect_index_mirrored:
  assumes "- int n \<le> j" and "j < 2 * int n"
  shows "reflect_index n j = mirrored n j"
proof -
  consider "j < 0" | "0 \<le> j" "j < int n" | "int n \<le> j" by linarith
  then show ?thesis
  proof cases
    case 1
    have "j mod (2 * int n) = (j + 2 * int n) mod (2 * int n)" by simp
    also have "\<dots> = j + 2 * int n"
      by (rule mod_pos_pos_trivial) (use 1 assms in linarith)+
    finally have "j mod (2 * int n) = j + 2 * int n" .
    then show ?thesis using 1 assms by (simp add: reflect_index_def mirrored_def Let_def)
  next
    case 2
    then have "j mod (2 * int n) = j" by simp
    then show ?thesis using 2 by (simp add: reflect_index_def mirrored_def Let_def)
  next
    case 3
    have "j mod (2 * int n) = j"
      by (rule mod_pos_pos_trivial) (use 3 assms in linarith)+
    then show ?thesis using 3 by (simp add: reflect_index_def mirrored_def Let_def)
  qed
qed

section \<open>Properties of the boundary detection\<close>

lemma find_pattern_transition_unique:
  "(find_pattern_transition a p = Inr k)
   = (\<exists>i. pattern_occurrences a p = {i} \<and> k = int i + int (length p div 2))"
proof (cases "length a < length p")
  case True
  then show ?thesis
    by (simp add: find_pattern_transition_def sliding_window_view_def no_occurrence_if_short)
next
  case False
  then have le: "length p \<le> length a" by simp
  define n where "n = length a - length p + 1"
  define ix where "ix = filter (\<lambda>i. take (length p) (drop i a) = p) [0..<n]"
  have f: "find_pattern_transition a p =
     (if length ix \<noteq> 1 then Inl ValueError else Inr (int (ix ! 0) + int (length p div 2)))"
    unfolding ix_def n_def using find_pattern_transition_unfold [OF le] by (simp only: Let_def)
  have "set ix = {i. i < n \<and> take (length p) (drop i a) = p}"
    unfolding ix_def by auto
  then have s: "set ix = pattern_occurrences a p"
    using occurrences_as_windows [OF le n_def] by simp
  show ?thesis
  proof
    assume r: "find_pattern_transition a p = Inr k"
    then have l: "length ix = 1" using f by (auto split: if_splits)
    then obtain i where i: "ix = [i]" by (cases ix) auto
    then have "pattern_occurrences a p = {i}" using s by simp
    moreover have "k = int i + int (length p div 2)" using r f l i by simp
    ultimately show "\<exists>i. pattern_occurrences a p = {i} \<and> k = int i + int (length p div 2)"
      by blast
  next
    assume "\<exists>i. pattern_occurrences a p = {i} \<and> k = int i + int (length p div 2)"
    then obtain i where o: "pattern_occurrences a p = {i}"
      and k: "k = int i + int (length p div 2)" by blast
    have "length ix = card (pattern_occurrences a p)"
      unfolding ix_def n_def by (rule match_count [OF le])
    then have l: "length ix = 1" using o by simp
    then obtain i' where i': "ix = [i']" by (cases ix) auto
    then have "i' = i" using s o by auto
    then show "find_pattern_transition a p = Inr k" using f l i' k by simp
  qed
qed

lemma smoothed_window:
  assumes "2 \<le> nz v" and "i < nz v"
  shows "smoothed_islands v ! i
         = sort (map (\<lambda>d. capped_count v (mirrored (nz v) (int i + d))) [- 2, - 1, 0, 1, 2]) ! 2"
proof -
  define a where "a = map (\<lambda>c. min c 2) (count_axial_components v)"
  have la: "length a = nz v" unfolding a_def by (simp add: count_axial_components_def)
  have val: "\<And>k. k < nz v \<Longrightarrow> a ! k = capped_count v k"
    unfolding a_def capped_count_def count_axial_components_def
    by (simp add: count_connected_components_slice min_def)
  have idx: "\<And>d. d \<in> set [- 2, - 1, 0, 1, 2 :: int] \<Longrightarrow>
      a ! reflect_index (length a) (int i + d) = capped_count v (mirrored (nz v) (int i + d))"
  proof -
    fix d :: int assume "d \<in> set [- 2, - 1, 0, 1, 2]"
    then have d: "- 2 \<le> d" "d \<le> 2" by auto
    have lo: "- int (nz v) \<le> int i + d" using assms d by linarith
    have hi: "int i + d < 2 * int (nz v)" using assms d by linarith
    have r: "reflect_index (nz v) (int i + d) = mirrored (nz v) (int i + d)"
      using lo hi by (rule reflect_index_mirrored)
    have "mirrored (nz v) (int i + d) < nz v"
      using assms d unfolding mirrored_def by (auto split: if_splits)
    then show "a ! reflect_index (length a) (int i + d)
               = capped_count v (mirrored (nz v) (int i + d))"
      unfolding la r by (rule val)
  qed
  have "smoothed_islands v ! i
        = sort (map (\<lambda>d. a ! reflect_index (length a) (int i + d)) [- 2, - 1, 0, 1, 2]) ! 2"
    unfolding smoothed_islands_def median_filter5_def a_def [symmetric]
    using assms(2) la by simp
  also have "map (\<lambda>d. a ! reflect_index (length a) (int i + d)) [- 2, - 1, 0, 1, 2]
             = map (\<lambda>d. capped_count v (mirrored (nz v) (int i + d))) [- 2, - 1, 0, 1, 2]"
    by (rule map_cong [OF refl]) (rule idx)
  finally show ?thesis .
qed

text \<open>
  C5. The count of every axial slice is the number of connected components of its
  foreground. The signal searched has one entry for each slice, and for a volume of at
  least two slices its entry \<open>i\<close> is the median of the five counts, each capped at 2,
  of the slices \<open>i - 2\<close> to \<open>i + 2\<close>, mirrored at the ends of the axis. The function
  returns \<open>(start_index, curve_index)\<close> exactly when the pattern 1, 1, 2, 2 occurs in
  the signal at one position \<open>i\<close> only and the pattern 2, 2, 1, 1 at one position \<open>j\<close>
  only, and then \<open>start_index = i + 2\<close> and \<open>curve_index = j + 2\<close>.
\<close>

theorem boundaries_are_unique_matches:
  "(\<forall>z<nz v. count_axial_components v ! z = int (slice_components v z))
   \<and> length (smoothed_islands v) = nz v
   \<and> (2 \<le> nz v \<longrightarrow>
        (\<forall>i<nz v. median_of_five
            (map (\<lambda>d. capped_count v (mirrored (nz v) (int i + d))) [- 2, - 1, 0, 1, 2])
            (smoothed_islands v ! i)))
   \<and> (find_aortic_segments_boundaries v = Inr (s, c))
     = (\<exists>i j. pattern_occurrences (smoothed_islands v) [1, 1, 2, 2] = {i}
            \<and> pattern_occurrences (smoothed_islands v) [2, 2, 1, 1] = {j}
            \<and> s = int i + 2 \<and> c = int j + 2)"
proof -
  have counts: "\<forall>z<nz v. count_axial_components v ! z = int (slice_components v z)"
    by (simp add: count_axial_components_def count_connected_components_slice)
  have len: "length (smoothed_islands v) = nz v"
    by (simp add: smoothed_islands_def median_filter5_def count_axial_components_def)
  have med: "2 \<le> nz v \<longrightarrow>
        (\<forall>i<nz v. median_of_five
            (map (\<lambda>d. capped_count v (mirrored (nz v) (int i + d))) [- 2, - 1, 0, 1, 2])
            (smoothed_islands v ! i))"
  proof (intro impI allI)
    fix i assume n: "2 \<le> nz v" and i: "i < nz v"
    have "length (map (\<lambda>d. capped_count v (mirrored (nz v) (int i + d))) [- 2, - 1, 0, 1, 2]) = 5"
      by simp
    from sort_five [OF this] show "median_of_five
            (map (\<lambda>d. capped_count v (mirrored (nz v) (int i + d))) [- 2, - 1, 0, 1, 2])
            (smoothed_islands v ! i)"
      unfolding smoothed_window [OF n i] .
  qed
  have unfold: "find_aortic_segments_boundaries v =
     (case find_pattern_transition (smoothed_islands v) [1, 1, 2, 2] of
        Inl e \<Rightarrow> Inl e
      | Inr ix_start \<Rightarrow>
          (case find_pattern_transition (smoothed_islands v) [2, 2, 1, 1] of
             Inl e \<Rightarrow> Inl e
           | Inr ix_curve \<Rightarrow> Inr (ix_start, ix_curve)))"
    by (simp only: find_aortic_segments_boundaries_def smoothed_islands_def Let_def)
  have "(find_aortic_segments_boundaries v = Inr (s, c))
      = (find_pattern_transition (smoothed_islands v) [1, 1, 2, 2] = Inr s
         \<and> find_pattern_transition (smoothed_islands v) [2, 2, 1, 1] = Inr c)"
    unfolding unfold by (auto split: sum.splits)
  also have "\<dots> = (\<exists>i j. pattern_occurrences (smoothed_islands v) [1, 1, 2, 2] = {i}
            \<and> pattern_occurrences (smoothed_islands v) [2, 2, 1, 1] = {j}
            \<and> s = int i + 2 \<and> c = int j + 2)"
    unfolding find_pattern_transition_unique by auto
  finally show ?thesis using counts len med by blast
qed

lemma j_boundaries: "find_aortic_segments_boundaries j_mask = Inr (2, 6)"
  by code_simp

lemma noisy_counts: "count_axial_components noisy_mask = [1, 1, 1, 3, 2, 1, 2, 2, 1, 1, 1]"
  by code_simp

lemma noisy_signal: "smoothed_islands noisy_mask = [1, 1, 1, 1, 2, 2, 2, 1, 1, 1, 1]"
  by code_simp

lemma noisy_boundaries: "find_aortic_segments_boundaries noisy_mask = Inr (4, 7)"
  by code_simp

theorem boundaries_are_unique_matches_witness:
  "find_aortic_segments_boundaries noisy_mask = Inr (4, 7)
   \<and> slice_components noisy_mask 3 = 3
   \<and> smoothed_islands noisy_mask ! 3 = 1
   \<and> median_of_five [1, 1, 2, 2, 1] (smoothed_islands noisy_mask ! 3)
   \<and> pattern_occurrences (smoothed_islands noisy_mask) [1, 1, 2, 2] = {2}
   \<and> pattern_occurrences (smoothed_islands noisy_mask) [2, 2, 1, 1] = {5}"
proof -
  note main = boundaries_are_unique_matches [of noisy_mask 4 7]
  have nz: "nz noisy_mask = 11" by (simp add: noisy_mask_def)
  from main noisy_boundaries
  obtain i j where "pattern_occurrences (smoothed_islands noisy_mask) [1, 1, 2, 2] = {i}"
    and "pattern_occurrences (smoothed_islands noisy_mask) [2, 2, 1, 1] = {j}"
    and "(4 :: int) = int i + 2" and "(7 :: int) = int j + 2"
    by blast
  then have occ: "pattern_occurrences (smoothed_islands noisy_mask) [1, 1, 2, 2] = {2}"
    "pattern_occurrences (smoothed_islands noisy_mask) [2, 2, 1, 1] = {5}"
    by simp_all
  from main nz have cnt: "\<And>z. z < 11 \<Longrightarrow>
      count_axial_components noisy_mask ! z = int (slice_components noisy_mask z)"
    by simp
  have c: "\<And>z. z < 11 \<Longrightarrow> int (slice_components noisy_mask z)
      = [1, 1, 1, 3, 2, 1, 2, 2, 1, 1, 1] ! z"
    using cnt unfolding noisy_counts by simp
  have sc: "slice_components noisy_mask 1 = 1" "slice_components noisy_mask 2 = 1"
    "slice_components noisy_mask 3 = 3" "slice_components noisy_mask 4 = 2"
    "slice_components noisy_mask 5 = 1"
    using c [of 1] c [of 2] c [of 3] c [of 4] c [of 5] by simp_all
  from main nz have "\<forall>i<11. median_of_five
      (map (\<lambda>d. capped_count noisy_mask (mirrored 11 (int i + d))) [- 2, - 1, 0, 1, 2])
      (smoothed_islands noisy_mask ! i)"
    by simp
  then have "median_of_five
      (map (\<lambda>d. capped_count noisy_mask (mirrored 11 (int 3 + d))) [- 2, - 1, 0, 1, 2])
      (smoothed_islands noisy_mask ! 3)"
    by (rule allE [of _ 3]) simp
  moreover have "mirrored 11 (int 3 + - 2) = 1" "mirrored 11 (int 3 + - 1) = 2"
    "mirrored 11 (int 3 + 0) = 3" "mirrored 11 (int 3 + 1) = 4" "mirrored 11 (int 3 + 2) = 5"
    by (simp_all add: mirrored_def)
  moreover have "capped_count noisy_mask 1 = 1" "capped_count noisy_mask 2 = 1"
    "capped_count noisy_mask 3 = 2" "capped_count noisy_mask 4 = 2"
    "capped_count noisy_mask 5 = 1"
    unfolding capped_count_def sc by simp_all
  ultimately have med: "median_of_five [1, 1, 2, 2, 1] (smoothed_islands noisy_mask ! 3)"
    by (simp only: list.map)
  show ?thesis using noisy_boundaries sc(3) med occ noisy_signal by simp
qed

section \<open>Properties of the anatomical segmentation\<close>

lemma segment_aorta_unfold:
  assumes "find_aortic_segments_boundaries aorta = Inr (ix_start, ix_curve)"
    and "label3 (pre_curve aorta ix_curve) = (labeled, num)"
    and "mapping = (if count_label labeled 1 > count_label labeled 2
                    then [0, seg_value DESCENDING, seg_value ASCENDING]
                    else [0, seg_value ASCENDING, seg_value DESCENDING])"
  shows "segment_aorta aorta =
     (if 2 < num then Inl IndexError
      else Inr (mk (nx aorta) (ny aorta) (nz aorta)
        (\<lambda>x y z.
           (let v = (if in_slice_from (nz aorta) ix_curve z
                     then voxel aorta x y z * seg_value TOP
                     else mapping ! voxel labeled x y z);
                v = (if v = seg_value DESCENDING \<and> int z < ix_start
                     then seg_value DESCENDING_BOTTOM else v)
            in v mod 256))))"
  using assms(1,2) unfolding segment_aorta_def assms(3) by (simp add: Let_def)

lemma segment_voxel_cases:
  fixes a :: int and l :: nat
  assumes "a = 0 \<or> a = 1" and "l \<le> 2" and "\<not> beyond \<Longrightarrow> (l = 0) = (a = 0)"
    and "mapping = [0, 3, 1] \<or> mapping = [0, 1, 3]"
    and "r = (let v = (if beyond then a * 2 else mapping ! l);
                  v = (if v = 3 \<and> low then 4 else v)
              in v mod 256)"
  shows "(r = 0 \<or> r = 1 \<or> r = 2 \<or> r = 3 \<or> r = 4) \<and> (r \<noteq> 0) = (a \<noteq> 0)"
proof (cases beyond)
  case True
  then show ?thesis using assms(1,5) by (auto simp add: Let_def)
next
  case False
  from assms(2) have "l = 0 \<or> l = 1 \<or> l = 2" by linarith
  then show ?thesis using False assms(1,3,4,5) by (auto simp add: Let_def)
qed

lemma segment_aorta_pointwise:
  assumes bd: "find_aortic_segments_boundaries aorta = Inr (ix_start, ix_curve)"
    and two: "snd (label3 (pre_curve aorta ix_curve)) = 2"
    and bin: "\<forall>p\<in>set (positions aorta). at_pos aorta p = 0 \<or> at_pos aorta p = 1"
  shows "\<exists>seg. segment_aorta aorta = Inr seg \<and> same_shape seg aorta
     \<and> (\<forall>x<nx aorta. \<forall>y<ny aorta. \<forall>z<nz aorta.
           (voxel seg x y z = 0 \<or> voxel seg x y z = 1 \<or> voxel seg x y z = 2
              \<or> voxel seg x y z = 3 \<or> voxel seg x y z = 4)
           \<and> (voxel seg x y z \<noteq> 0) = (voxel aorta x y z \<noteq> 0))"
proof -
  obtain labeled num where l3: "label3 (pre_curve aorta ix_curve) = (labeled, num)"
    by (cases "label3 (pre_curve aorta ix_curve)") auto
  with two have num: "num = 2" by simp
  define mapping where "mapping = (if count_label labeled 1 > count_label labeled 2
                    then [0, seg_value DESCENDING, seg_value ASCENDING]
                    else [0, seg_value ASCENDING, seg_value DESCENDING])"
  have mp: "mapping = [0, 3, 1] \<or> mapping = [0, 1, 3]" unfolding mapping_def by simp
  define f where "f = (\<lambda>x y z.
           (let v = (if in_slice_from (nz aorta) ix_curve z
                     then voxel aorta x y z * 2
                     else mapping ! voxel labeled x y z);
                v = (if v = 3 \<and> int z < ix_start then 4 else v)
            in v mod 256))"
  define seg where "seg = mk (nx aorta) (ny aorta) (nz aorta) f"
  have res: "segment_aorta aorta = Inr seg"
    using segment_aorta_unfold [OF bd l3 mapping_def, unfolded seg_value.simps] num
    unfolding seg_def f_def by simp
  have sh: "same_shape seg aorta" unfolding seg_def by (simp add: same_shape_def shape_mk)
  have pt: "\<forall>x<nx aorta. \<forall>y<ny aorta. \<forall>z<nz aorta.
           (voxel seg x y z = 0 \<or> voxel seg x y z = 1 \<or> voxel seg x y z = 2
              \<or> voxel seg x y z = 3 \<or> voxel seg x y z = 4)
           \<and> (voxel seg x y z \<noteq> 0) = (voxel aorta x y z \<noteq> 0)"
  proof (intro allI impI)
    fix x y z assume x: "x < nx aorta" and y: "y < ny aorta" and z: "z < nz aorta"
    have v: "voxel seg x y z = f x y z" unfolding seg_def using x y z by (rule voxel_mk)
    have "(x, y, z) \<in> set (positions aorta)" using x y z by (simp add: set_positions)
    with bin have a: "voxel aorta x y z = 0 \<or> voxel aorta x y z = 1"
      by (auto simp add: at_pos_def)
    have dims: "x < nx (pre_curve aorta ix_curve)" "y < ny (pre_curve aorta ix_curve)"
      "z < nz (pre_curve aorta ix_curve)"
      using x y z by (simp_all add: pre_curve_def shape_mk)
    from label3_voxel [OF dims l3]
    have l0: "(voxel labeled x y z = 0) = (voxel (pre_curve aorta ix_curve) x y z = 0)"
      and l2: "voxel labeled x y z \<le> 2" using num by simp_all
    have pc: "\<not> in_slice_from (nz aorta) ix_curve z \<Longrightarrow>
        (voxel labeled x y z = 0) = (voxel aorta x y z = 0)"
      using l0 x y z by (simp add: pre_curve_def voxel_mk)
    have "f x y z = (let v = (if in_slice_from (nz aorta) ix_curve z
                     then voxel aorta x y z * 2
                     else mapping ! voxel labeled x y z);
                v = (if v = 3 \<and> int z < ix_start then 4 else v)
            in v mod 256)"
      unfolding f_def ..
    from segment_voxel_cases [OF a l2 pc mp this]
    show "(voxel seg x y z = 0 \<or> voxel seg x y z = 1 \<or> voxel seg x y z = 2
              \<or> voxel seg x y z = 3 \<or> voxel seg x y z = 4)
           \<and> (voxel seg x y z \<noteq> 0) = (voxel aorta x y z \<noteq> 0)"
      unfolding v .
  qed
  from res sh pt show ?thesis by blast
qed

text \<open>
  C1. For a binary mask on which the boundary detection succeeds and whose part before
  the curve has exactly two connected components, \<open>segment_aorta\<close> returns a volume of
  the shape of the mask whose voxels hold 0, 1, 2, 3 or 4; the regions of the four
  labels are pairwise disjoint and their union is the set of the voxels of the mask that
  are not 0.
\<close>

theorem segment_aorta_partition:
  assumes "find_aortic_segments_boundaries aorta = Inr (ix_start, ix_curve)"
    and "snd (label3 (pre_curve aorta ix_curve)) = 2"
    and "\<forall>p\<in>set (positions aorta). at_pos aorta p = 0 \<or> at_pos aorta p = 1"
  shows "\<exists>seg. segment_aorta aorta = Inr seg \<and> same_shape seg aorta
     \<and> (\<forall>p\<in>set (positions seg). at_pos seg p \<in> {0, 1, 2, 3, 4})
     \<and> label_region seg (seg_value ASCENDING) \<union> label_region seg (seg_value TOP)
         \<union> label_region seg (seg_value DESCENDING)
         \<union> label_region seg (seg_value DESCENDING_BOTTOM) = support aorta
     \<and> (\<forall>s t. s \<noteq> t \<longrightarrow>
           label_region seg (seg_value s) \<inter> label_region seg (seg_value t) = {})"
proof -
  from segment_aorta_pointwise [OF assms]
  obtain seg where res: "segment_aorta aorta = Inr seg" and sh: "same_shape seg aorta"
    and pt: "\<forall>x<nx aorta. \<forall>y<ny aorta. \<forall>z<nz aorta.
           (voxel seg x y z = 0 \<or> voxel seg x y z = 1 \<or> voxel seg x y z = 2
              \<or> voxel seg x y z = 3 \<or> voxel seg x y z = 4)
           \<and> (voxel seg x y z \<noteq> 0) = (voxel aorta x y z \<noteq> 0)"
    by blast
  have pos: "set (positions seg) = set (positions aorta)"
    using sh by (simp add: set_positions same_shape_def)
  have at: "\<And>p. p \<in> set (positions aorta) \<Longrightarrow>
      (at_pos seg p = 0 \<or> at_pos seg p = 1 \<or> at_pos seg p = 2 \<or> at_pos seg p = 3
         \<or> at_pos seg p = 4)
      \<and> (at_pos seg p \<noteq> 0) = (at_pos aorta p \<noteq> 0)"
  proof -
    fix p assume "p \<in> set (positions aorta)"
    then have "fst p < nx aorta" and "fst (snd p) < ny aorta" and "snd (snd p) < nz aorta"
      by (simp_all add: set_positions)
    from pt [rule_format, OF this]
    show "(at_pos seg p = 0 \<or> at_pos seg p = 1 \<or> at_pos seg p = 2 \<or> at_pos seg p = 3
         \<or> at_pos seg p = 4)
      \<and> (at_pos seg p \<noteq> 0) = (at_pos aorta p \<noteq> 0)"
      unfolding at_pos_def .
  qed
  have vals: "\<forall>p\<in>set (positions seg). at_pos seg p \<in> {0, 1, 2, 3, 4}"
    using at pos by auto
  have cover: "label_region seg (seg_value ASCENDING) \<union> label_region seg (seg_value TOP)
         \<union> label_region seg (seg_value DESCENDING)
         \<union> label_region seg (seg_value DESCENDING_BOTTOM) = support aorta"
  proof (rule set_eqI)
    fix p
    show "(p \<in> label_region seg (seg_value ASCENDING) \<union> label_region seg (seg_value TOP)
         \<union> label_region seg (seg_value DESCENDING)
         \<union> label_region seg (seg_value DESCENDING_BOTTOM)) = (p \<in> support aorta)"
    proof (cases "p \<in> set (positions aorta)")
      case True
      from at [OF True] show ?thesis
        using True pos by (auto simp add: label_region_def support_def)
    next
      case False
      then show ?thesis using pos by (simp add: label_region_def support_def)
    qed
  qed
  have inj: "\<And>s t. seg_value s = seg_value t \<Longrightarrow> s = t"
  proof -
    fix s t show "seg_value s = seg_value t \<Longrightarrow> s = t" by (cases s; cases t) simp_all
  qed
  have disj: "\<forall>s t. s \<noteq> t \<longrightarrow>
           label_region seg (seg_value s) \<inter> label_region seg (seg_value t) = {}"
    using inj by (auto simp add: label_region_def)
  from res sh vals cover disj show ?thesis by blast
qed

lemma j_label: "label3 (pre_curve j_mask 6) = (j_labeled, 2)"
  by code_simp

lemma j_binary: "\<forall>p\<in>set (positions j_mask). at_pos j_mask p = 0 \<or> at_pos j_mask p = 1"
  by code_simp

lemma j_segmented: "segment_aorta j_mask = Inr j_segments"
proof -
  have "segment_aorta j_mask =
     (if 2 < (2 :: nat) then Inl IndexError
      else Inr (mk (nx j_mask) (ny j_mask) (nz j_mask)
        (\<lambda>x y z.
           (let v = (if in_slice_from (nz j_mask) 6 z
                     then voxel j_mask x y z * seg_value TOP
                     else (if count_label j_labeled 1 > count_label j_labeled 2
                           then [0, seg_value DESCENDING, seg_value ASCENDING]
                           else [0, seg_value ASCENDING, seg_value DESCENDING])
                          ! voxel j_labeled x y z);
                v = (if v = seg_value DESCENDING \<and> int z < 2
                     then seg_value DESCENDING_BOTTOM else v)
            in v mod 256))))"
    by (rule segment_aorta_unfold [OF j_boundaries j_label refl])
  also have "\<dots> = Inr j_segments" by code_simp
  finally show ?thesis .
qed

theorem segment_aorta_partition_witness:
  "segment_aorta j_mask = Inr j_segments
   \<and> label_region j_segments 1 \<union> label_region j_segments 2
       \<union> label_region j_segments 3 \<union> label_region j_segments 4 = support j_mask
   \<and> label_region j_segments 1 \<inter> label_region j_segments 3 = {}"
proof -
  have two: "snd (label3 (pre_curve j_mask 6)) = 2" using j_label by simp
  from segment_aorta_partition [OF j_boundaries two j_binary]
  obtain seg where res: "segment_aorta j_mask = Inr seg"
    and cover: "label_region seg (seg_value ASCENDING) \<union> label_region seg (seg_value TOP)
         \<union> label_region seg (seg_value DESCENDING)
         \<union> label_region seg (seg_value DESCENDING_BOTTOM) = support j_mask"
    and disj: "\<forall>s t. s \<noteq> t \<longrightarrow>
           label_region seg (seg_value s) \<inter> label_region seg (seg_value t) = {}"
    by blast
  from res j_segmented have seg: "seg = j_segments" by simp
  have "ASCENDING \<noteq> DESCENDING" by simp
  with disj have "label_region seg (seg_value ASCENDING) \<inter> label_region seg (seg_value DESCENDING) = {}"
    by blast
  then show ?thesis using cover j_segmented unfolding seg seg_value.simps by simp
qed

section \<open>Properties of the extraction of the volumes of interest\<close>

lemma mk_cong:
  assumes "\<And>x y z. x < a \<Longrightarrow> y < b \<Longrightarrow> z < c \<Longrightarrow> f x y z = g x y z"
  shows "mk a b c f = mk a b c g"
  unfolding mk_def using assms by simp

lemma swapaxes12_transposed: "transposed12 v (swapaxes12 v)"
  by (simp add: transposed12_def swapaxes12_def shape_mk voxel_mk)

lemma swapaxes12_twice:
  assumes "wf_vol v"
  shows "swapaxes12 (swapaxes12 v) = v"
proof -
  have "swapaxes12 (swapaxes12 v)
        = mk (nx v) (ny v) (nz v) (\<lambda>x y z. voxel (mk (nx v) (nz v) (ny v) (\<lambda>x y z. voxel v x z y)) x z y)"
    by (simp add: swapaxes12_def shape_mk)
  also have "\<dots> = mk (nx v) (ny v) (nz v) (voxel v)"
    by (rule mk_cong) (simp add: voxel_mk)
  also have "\<dots> = v" using assms unfolding wf_vol_def by simp
  finally show ?thesis .
qed

lemma segment_voi_top:
  "segment_voi TOP aorta_segments pet [sx, sy, sz] volume_ml cylinder_width =
     permute_run_permute_back
       (\<lambda>zone frame spacing. create_cylindrical_voi zone frame spacing volume_ml cylinder_width)
       (segment_mask aorta_segments TOP) pet (sx, sy, sz)"
  by (simp add: segment_voi_def permute_run_permute_back_def permute_spacing_def segment_mask_def
        Let_def)

lemma segment_voi_other:
  assumes "seg \<noteq> TOP"
  shows "segment_voi seg aorta_segments pet voxel_size volume_ml cylinder_width =
     create_cylindrical_voi (segment_mask aorta_segments seg) pet voxel_size volume_ml
       cylinder_width"
  using assms by (simp add: segment_voi_def segment_mask_def Let_def)

lemma assign_where_Inr:
  assumes "assign_where vois voi a = Inr vois'"
  shows "same_shape vois' vois
     \<and> (\<forall>x<nx vois. \<forall>y<ny vois. \<forall>z<nz vois.
           voxel vois' x y z = (if voxel voi x y z then a else voxel vois x y z))"
proof -
  from assms have "vois' = mk (nx vois) (ny vois) (nz vois)
                   (\<lambda>x y z. if voxel voi x y z then a else voxel vois x y z)"
    unfolding assign_where_def by (simp split: if_splits)
  then show ?thesis by (simp add: same_shape_def shape_mk voxel_mk)
qed

lemma place_segments_step:
  assumes "place_segments (seg # segs) vois aorta_segments pet voxel_size volume_ml
             cylinder_width = Inr out"
  shows "\<exists>voi vois'.
           segment_voi seg aorta_segments pet voxel_size volume_ml cylinder_width = Inr voi
         \<and> assign_where vois voi (seg_value seg) = Inr vois'
         \<and> place_segments segs vois' aorta_segments pet voxel_size volume_ml cylinder_width
             = Inr out"
  using assms by (simp split: sum.splits)

lemma extract_aorta_vois_Inr:
  assumes "extract_aorta_vois aorta_mask affine dpet frame_times_start t_threshold volume_ml
             cylinder_width = Inr (vois, aorta_segments)"
  shows "\<exists>segmented pet.
           segment_aorta aorta_mask = Inr segmented
         \<and> refined_segments segmented
               (average_early_pet_frames dpet frame_times_start t_threshold)
             = Inr (aorta_segments, pet)
         \<and> place_segments [ASCENDING, TOP, DESCENDING, DESCENDING_BOTTOM]
               (mk (nx aorta_segments) (ny aorta_segments) (nz aorta_segments) (\<lambda>x y z. 0))
               aorta_segments pet (voxel_size_of affine) volume_ml cylinder_width
             = Inr vois"
  using assms unfolding extract_aorta_vois_def
  by (auto simp add: Let_def simp del: place_segments.simps split: sum.splits prod.splits)

text \<open>
  C9. Whenever \<open>extract_aorta_vois\<close> returns, the volume of interest of the TOP zone is
  the result of the wrapper of the specification (transpose axes 1 and 2 of the zone mask
  and of the frame, permute the spacing, run the placer, transpose back) around the very
  placer that the three other zones use directly, and the returned volume holds, in
  every voxel, the code of the last zone in the order ASCENDING, TOP, DESCENDING,
  DESCENDING\_BOTTOM whose volume of interest contains the voxel, or 0.
\<close>

theorem top_voi_is_transposed_placement:
  assumes "extract_aorta_vois aorta_mask affine dpet frame_times_start t_threshold volume_ml
             cylinder_width = Inr (vois, aorta_segments)"
    and "voxel_size_of affine = [sx, sy, sz]"
  shows "\<exists>pet asc top des bot.
      create_cylindrical_voi (segment_mask aorta_segments ASCENDING) pet [sx, sy, sz]
          volume_ml cylinder_width = Inr asc
    \<and> permute_run_permute_back
          (\<lambda>zone frame spacing.
              create_cylindrical_voi zone frame spacing volume_ml cylinder_width)
          (segment_mask aorta_segments TOP) pet (sx, sy, sz) = Inr top
    \<and> transposed12 (segment_mask aorta_segments TOP)
          (swapaxes12 (segment_mask aorta_segments TOP))
    \<and> transposed12 pet (swapaxes12 pet)
    \<and> create_cylindrical_voi (segment_mask aorta_segments DESCENDING) pet [sx, sy, sz]
          volume_ml cylinder_width = Inr des
    \<and> create_cylindrical_voi (segment_mask aorta_segments DESCENDING_BOTTOM) pet [sx, sy, sz]
          volume_ml cylinder_width = Inr bot
    \<and> same_shape vois aorta_segments
    \<and> (\<forall>x<nx aorta_segments. \<forall>y<ny aorta_segments. \<forall>z<nz aorta_segments.
          voxel vois x y z =
            (if voxel bot x y z then seg_value DESCENDING_BOTTOM
             else if voxel des x y z then seg_value DESCENDING
             else if voxel top x y z then seg_value TOP
             else if voxel asc x y z then seg_value ASCENDING else 0))"
proof -
  define v0 :: "int vol" where
    "v0 = mk (nx aorta_segments) (ny aorta_segments) (nz aorta_segments) (\<lambda>x y z. 0)"
  from extract_aorta_vois_Inr [OF assms(1)] obtain segmented pet where
    pl: "place_segments [ASCENDING, TOP, DESCENDING, DESCENDING_BOTTOM] v0
           aorta_segments pet [sx, sy, sz] volume_ml cylinder_width = Inr vois"
    unfolding v0_def assms(2) by blast
  from place_segments_step [OF pl] obtain asc v1 where
    a: "segment_voi ASCENDING aorta_segments pet [sx, sy, sz] volume_ml cylinder_width = Inr asc"
    and a1: "assign_where v0 asc (seg_value ASCENDING) = Inr v1"
    and p1: "place_segments [TOP, DESCENDING, DESCENDING_BOTTOM] v1
           aorta_segments pet [sx, sy, sz] volume_ml cylinder_width = Inr vois"
    by blast
  from place_segments_step [OF p1] obtain top v2 where
    t: "segment_voi TOP aorta_segments pet [sx, sy, sz] volume_ml cylinder_width = Inr top"
    and a2: "assign_where v1 top (seg_value TOP) = Inr v2"
    and p2: "place_segments [DESCENDING, DESCENDING_BOTTOM] v2
           aorta_segments pet [sx, sy, sz] volume_ml cylinder_width = Inr vois"
    by blast
  from place_segments_step [OF p2] obtain des v3 where
    d: "segment_voi DESCENDING aorta_segments pet [sx, sy, sz] volume_ml cylinder_width = Inr des"
    and a3: "assign_where v2 des (seg_value DESCENDING) = Inr v3"
    and p3: "place_segments [DESCENDING_BOTTOM] v3
           aorta_segments pet [sx, sy, sz] volume_ml cylinder_width = Inr vois"
    by blast
  from place_segments_step [OF p3] obtain bot v4 where
    b: "segment_voi DESCENDING_BOTTOM aorta_segments pet [sx, sy, sz] volume_ml cylinder_width
          = Inr bot"
    and a4: "assign_where v3 bot (seg_value DESCENDING_BOTTOM) = Inr v4"
    and p4: "place_segments [] v4
           aorta_segments pet [sx, sy, sz] volume_ml cylinder_width = Inr vois"
    by blast
  from p4 have v4: "v4 = vois" by simp
  have s0: "nx v0 = nx aorta_segments" "ny v0 = ny aorta_segments" "nz v0 = nz aorta_segments"
    unfolding v0_def by (simp_all add: shape_mk)
  note r1 = assign_where_Inr [OF a1]
  note r2 = assign_where_Inr [OF a2]
  note r3 = assign_where_Inr [OF a3]
  note r4 = assign_where_Inr [OF a4]
  have s1: "nx v1 = nx aorta_segments" "ny v1 = ny aorta_segments" "nz v1 = nz aorta_segments"
    using r1 s0 by (simp_all add: same_shape_def)
  have s2: "nx v2 = nx aorta_segments" "ny v2 = ny aorta_segments" "nz v2 = nz aorta_segments"
    using r2 s1 by (simp_all add: same_shape_def)
  have s3: "nx v3 = nx aorta_segments" "ny v3 = ny aorta_segments" "nz v3 = nz aorta_segments"
    using r3 s2 by (simp_all add: same_shape_def)
  have s4: "same_shape vois aorta_segments"
    using r4 s3 v4 by (simp add: same_shape_def)
  have vals: "\<forall>x<nx aorta_segments. \<forall>y<ny aorta_segments. \<forall>z<nz aorta_segments.
          voxel vois x y z =
            (if voxel bot x y z then seg_value DESCENDING_BOTTOM
             else if voxel des x y z then seg_value DESCENDING
             else if voxel top x y z then seg_value TOP
             else if voxel asc x y z then seg_value ASCENDING else 0)"
  proof (intro allI impI)
    fix x y z
    assume x: "x < nx aorta_segments" and y: "y < ny aorta_segments"
      and z: "z < nz aorta_segments"
    have e0: "voxel v0 x y z = 0" unfolding v0_def using x y z by (simp add: voxel_mk)
    have e1: "voxel v1 x y z = (if voxel asc x y z then seg_value ASCENDING else voxel v0 x y z)"
      using r1 x y z s0 by simp
    have e2: "voxel v2 x y z = (if voxel top x y z then seg_value TOP else voxel v1 x y z)"
      using r2 x y z s1 by simp
    have e3: "voxel v3 x y z = (if voxel des x y z then seg_value DESCENDING else voxel v2 x y z)"
      using r3 x y z s2 by simp
    have e4: "voxel v4 x y z
        = (if voxel bot x y z then seg_value DESCENDING_BOTTOM else voxel v3 x y z)"
      using r4 x y z s3 by simp
    show "voxel vois x y z =
            (if voxel bot x y z then seg_value DESCENDING_BOTTOM
             else if voxel des x y z then seg_value DESCENDING
             else if voxel top x y z then seg_value TOP
             else if voxel asc x y z then seg_value ASCENDING else 0)"
      unfolding v4 [symmetric] e4 e3 e2 e1 e0 by simp
  qed
  have a': "create_cylindrical_voi (segment_mask aorta_segments ASCENDING) pet [sx, sy, sz]
          volume_ml cylinder_width = Inr asc"
    using a by (simp add: segment_voi_other)
  have d': "create_cylindrical_voi (segment_mask aorta_segments DESCENDING) pet [sx, sy, sz]
          volume_ml cylinder_width = Inr des"
    using d by (simp add: segment_voi_other)
  have b': "create_cylindrical_voi (segment_mask aorta_segments DESCENDING_BOTTOM) pet
          [sx, sy, sz] volume_ml cylinder_width = Inr bot"
    using b by (simp add: segment_voi_other)
  have t': "permute_run_permute_back
          (\<lambda>zone frame spacing.
              create_cylindrical_voi zone frame spacing volume_ml cylinder_width)
          (segment_mask aorta_segments TOP) pet (sx, sy, sz) = Inr top"
    using t unfolding segment_voi_top .
  from a' t' d' b' s4 vals swapaxes12_transposed [of "segment_mask aorta_segments TOP"]
    swapaxes12_transposed [of pet]
  show ?thesis by blast
qed

lemma j_refined:
  "refined_segments j_segments (average_early_pet_frames j_dpet [0] 40) = Inr (j_segments, j_pet)"
  by code_simp

lemma j_spacing: "voxel_size_of j_affine = [10, 10, 10]"
  by code_simp

lemma j_placed:
  "place_segments [ASCENDING, TOP, DESCENDING, DESCENDING_BOTTOM]
     (mk (nx j_segments) (ny j_segments) (nz j_segments) (\<lambda>x y z. 0))
     j_segments j_pet [10, 10, 10] 1 3 = Inr j_vois"
  by code_simp

lemma j_extracted:
  "extract_aorta_vois j_mask j_affine j_dpet [0] 40 1 3 = Inr (j_vois, j_segments)"
  unfolding extract_aorta_vois_def
  by (simp add: j_segmented j_refined j_spacing j_placed Let_def del: place_segments.simps)

theorem top_voi_is_transposed_placement_witness:
  "\<exists>pet top.
      permute_run_permute_back
          (\<lambda>zone frame spacing. create_cylindrical_voi zone frame spacing 1 3)
          (segment_mask j_segments TOP) pet (10, 10, 10) = Inr top
    \<and> same_shape j_vois j_segments"
  using top_voi_is_transposed_placement [OF j_extracted j_spacing] by blast

text \<open>
  C2 fails on the code. On the mask of two tubes one voxel wide, with uniform activity,
  the seed of the DESCENDING zone is placed in the tube at \<open>(0, 0, 2)\<close> and dilated to
  width 3: the voxel \<open>(1, 0, 2)\<close> beside the tube, which is background in the
  segmentation, holds the code 3 in the returned volume of interest.
\<close>

theorem voi_leaves_its_segment:
  "extract_aorta_vois j_mask j_affine j_dpet [0] 40 1 3 = Inr (j_vois, j_segments)
   \<and> voxel j_vois 1 0 2 = seg_value DESCENDING
   \<and> voxel j_segments 1 0 2 = 0
   \<and> (1, 0, 2) \<in> label_region j_vois (seg_value DESCENDING)
   \<and> (1, 0, 2) \<notin> label_region j_segments (seg_value DESCENDING)"
proof -
  have "voxel j_vois 1 0 2 = seg_value DESCENDING \<and> voxel j_segments 1 0 2 = 0"
    by code_simp
  moreover have "(1, 0, 2) \<in> label_region j_vois (seg_value DESCENDING)"
    by code_simp
  moreover have "(1, 0, 2) \<notin> label_region j_segments (seg_value DESCENDING)"
    by code_simp
  ultimately show ?thesis using j_extracted by simp
qed

theorem voi_leaves_its_segment_witness:
  "\<not> label_region j_vois (seg_value DESCENDING) \<subseteq> label_region j_segments (seg_value DESCENDING)"
  using voi_leaves_its_segment by blast

section \<open>Properties of the Patlak fit of one chunk\<close>

lemma nth_concat_uniform:
  assumes "\<forall>xs\<in>set xss. length xs = m" and "i < length xss" and "j < m"
  shows "concat xss ! (i * m + j) = xss ! i ! j"
  using assms
proof (induction xss arbitrary: i)
  case Nil
  then show ?case by simp
next
  case (Cons xs xss)
  have len: "length xs = m" using Cons.prems(1) by simp
  show ?case
  proof (cases i)
    case 0
    then show ?thesis using len Cons.prems(3) by (simp add: nth_append)
  next
    case (Suc i')
    have ih: "concat xss ! (i' * m + j) = xss ! i' ! j"
      using Cons.IH [of i'] Cons.prems Suc by simp
    have "concat (xs # xss) ! (i * m + j) = (xs @ concat xss) ! (length xs + (i' * m + j))"
      using Suc len by (simp add: add.assoc)
    also have "\<dots> = concat xss ! (i' * m + j)" by (rule nth_append_length_plus)
    finally show ?thesis using ih Suc by simp
  qed
qed

lemma length_concat_uniform:
  assumes "\<forall>xs\<in>set xss. length xs = m"
  shows "length (concat xss) = length xss * m"
  using assms by (induction xss) simp_all

lemma flat_index_bound:
  fixes x y z :: nat
  assumes "y < b" and "z < c"
  shows "y * c + z < b * c"
proof -
  have "y * c + z < y * c + c" using assms(2) by simp
  also have "\<dots> = Suc y * c" by simp
  also have "\<dots> \<le> b * c" using assms(1) by (intro mult_le_mono1) simp
  finally show ?thesis .
qed

lemma positions_nth:
  assumes "x < nx v" and "y < ny v" and "z < nz v"
  shows "(x * ny v + y) * nz v + z < length (positions v)
       \<and> positions v ! ((x * ny v + y) * nz v + z) = (x, y, z)"
proof -
  define plane :: "nat \<Rightarrow> (nat \<times> nat \<times> nat) list"
    where "plane = (\<lambda>x. concat (map (\<lambda>y. map (\<lambda>z. (x, y, z)) [0..<nz v]) [0..<ny v]))"
  have rows: "\<And>x :: nat. \<forall>xs\<in>set (map (\<lambda>y. map (\<lambda>z. (x, y, z)) [0..<nz v]) [0..<ny v]). length xs = nz v"
    by auto
  have plane_len: "\<And>x. length (plane x) = ny v * nz v"
    unfolding plane_def using length_concat_uniform [OF rows] by simp
  have plane_nth: "plane x ! (y * nz v + z) = (x, y, z)"
    unfolding plane_def using nth_concat_uniform [OF rows, of y x z] assms by simp
  have pos: "positions v = concat (map plane [0..<nx v])"
    unfolding positions_def plane_def ..
  have planes: "\<forall>xs\<in>set (map plane [0..<nx v]). length xs = ny v * nz v"
    using plane_len by auto
  have inner: "y * nz v + z < ny v * nz v" using assms(2,3) by (rule flat_index_bound)
  have idx: "(x * ny v + y) * nz v + z = x * (ny v * nz v) + (y * nz v + z)"
    by (simp add: algebra_simps)
  have "positions v ! (x * (ny v * nz v) + (y * nz v + z)) = map plane [0..<nx v] ! x ! (y * nz v + z)"
    unfolding pos using nth_concat_uniform [OF planes _ inner, of x] assms(1) by simp
  also have "\<dots> = (x, y, z)" using assms(1) plane_nth by simp
  finally have nth: "positions v ! (x * (ny v * nz v) + (y * nz v + z)) = (x, y, z)" .
  have "length (positions v) = nx v * (ny v * nz v)"
    unfolding pos using length_concat_uniform [OF planes] by simp
  moreover have "x * (ny v * nz v) + (y * nz v + z) < nx v * (ny v * nz v)"
    using assms(1) inner by (rule flat_index_bound)
  ultimately have "x * (ny v * nz v) + (y * nz v + z) < length (positions v)" by simp
  with nth show ?thesis unfolding idx by blast
qed


lemma py_last_trailing:
  assumes "0 < k"
  shows "py_last k xs = trailing (nat k) xs"
  using assms by (simp add: py_last_def trailing_def)

lemma trailing_column_gen:
  assumes "\<forall>row\<in>set rows. length row = Tc" and "min k Tc = min k (length input_fun)"
    and "i < length rows"
  shows "map (\<lambda>row. row ! i)
           (map (\<lambda>(row, y). map (\<lambda>x. x / y) row)
                (zip (trailing k (np_transpose Tc rows)) (trailing k input_fun)))
         = map (\<lambda>(a, f). a / f) (zip (trailing k (rows ! i)) (trailing k input_fun))"
proof -
  define c where "c = Tc - k"
  define c' where "c' = length input_fun - k"
  have li: "length (rows ! i) = Tc" using assms(1,3) by simp
  have m: "Tc - c = length input_fun - c'" unfolding c_def c'_def using assms(2) by linarith
  have yl: "trailing k (np_transpose Tc rows) = map (\<lambda>k. map (\<lambda>row. row ! k) rows) [c..<Tc]"
    unfolding trailing_def np_transpose_def c_def by (simp add: drop_map)
  have dl: "trailing k input_fun = drop c' input_fun"
    unfolding trailing_def c'_def by simp
  have rl: "trailing k (rows ! i) = drop c (rows ! i)"
    unfolding trailing_def c_def using li by simp
  show ?thesis
    unfolding yl dl rl
  proof (rule nth_equalityI)
    show "length (map (\<lambda>row. row ! i)
           (map (\<lambda>(row, y). map (\<lambda>x. x / y) row)
                (zip (map (\<lambda>k. map (\<lambda>row. row ! k) rows) [c..<Tc]) (drop c' input_fun))))
         = length (map (\<lambda>(a, f). a / f) (zip (drop c (rows ! i)) (drop c' input_fun)))"
      using li by simp
  next
    fix j
    assume "j < length (map (\<lambda>row. row ! i)
           (map (\<lambda>(row, y). map (\<lambda>x. x / y) row)
                (zip (map (\<lambda>k. map (\<lambda>row. row ! k) rows) [c..<Tc]) (drop c' input_fun))))"
    then have j: "j < Tc - c" "j < length input_fun - c'" by simp_all
    then show "map (\<lambda>row. row ! i)
           (map (\<lambda>(row, y). map (\<lambda>x. x / y) row)
                (zip (map (\<lambda>k. map (\<lambda>row. row ! k) rows) [c..<Tc]) (drop c' input_fun))) ! j
         = map (\<lambda>(a, f). a / f) (zip (drop c (rows ! i)) (drop c' input_fun)) ! j"
      using assms(3) li by simp
  qed
qed


lemma linear_regression_fit_coef:
  assumes "linear_regression_fit is_finite ols X Y n = Inr (coef, intercept)" and "i < n"
  shows "coef ! i = fst (ols X (map (\<lambda>row. row ! i) Y))"
proof -
  from assms(1) have "coef = map fst (map (\<lambda>j. ols X (map (\<lambda>row. row ! j) Y)) [0..<n])"
    unfolding linear_regression_fit_def by (simp add: Let_def split: if_splits)
  then show ?thesis using assms(2) by simp
qed

lemma patlak_chunk_slopes:
  assumes "\<forall>p\<in>set (positions arr). length (at_pos arr p) = Tc"
    and "min (nat K) Tc = min (nat K) (length input_fun)"
    and "0 < K"
    and "\<forall>y x r. cumulative_simpson y x = Inr r \<longrightarrow> length r = length y"
    and "voxel_patlak_chunk cumulative_simpson is_finite ols arr input_fun t K
           = Inr (slopes, intercepts)"
  shows "\<exists>integral. cumulative_simpson input_fun (map (\<lambda>s. s / 60) t) = Inr integral
     \<and> same_shape slopes arr
     \<and> (\<forall>x<nx arr. \<forall>y<ny arr. \<forall>z<nz arr.
          voxel slopes x y z =
            fst (ols (trailing (nat K) (map (\<lambda>(i, f). i / f) (zip integral input_fun)))
                     (map (\<lambda>(a, f). a / f)
                          (zip (trailing (nat K) (voxel arr x y z))
                               (trailing (nat K) input_fun)))))"
proof -
  define rows where "rows = map (at_pos arr) (positions arr)"
  from assms(5) obtain integral X' Y coef intercept where
    cs: "cumulative_simpson input_fun (map (\<lambda>s. s / 60) t) = Inr integral"
    and dv: "np_divide integral input_fun = Inr X'"
    and dc: "np_divide_column (py_last K (np_transpose (n_frames arr) rows)) (py_last K input_fun)
             = Inr Y"
    and ft: "linear_regression_fit is_finite ols (py_last K X') Y (length rows)
             = Inr (coef, intercept)"
    and sl: "slopes = mk (nx arr) (ny arr) (nz arr)
                         (\<lambda>x y z. coef ! ((x * ny arr + y) * nz arr + z))"
    unfolding voxel_patlak_chunk_def rows_def
    by (auto simp add: Let_def split: sum.splits prod.splits)
  have li: "length integral = length input_fun" using assms(4) cs by blast
  then have X': "X' = map (\<lambda>(i, f). i / f) (zip integral input_fun)"
    using dv unfolding np_divide_def by simp
  have X: "py_last K X' = trailing (nat K) (map (\<lambda>(i, f). i / f) (zip integral input_fun))"
    unfolding X' using assms(3) by (rule py_last_trailing)
  have sh: "same_shape slopes arr" unfolding sl by (simp add: same_shape_def shape_mk)
  have wf: "\<forall>row\<in>set rows. length row = Tc" unfolding rows_def using assms(1) by simp
  have vals: "\<forall>x<nx arr. \<forall>y<ny arr. \<forall>z<nz arr.
          voxel slopes x y z =
            fst (ols (trailing (nat K) (map (\<lambda>(i, f). i / f) (zip integral input_fun)))
                     (map (\<lambda>(a, f). a / f)
                          (zip (trailing (nat K) (voxel arr x y z))
                               (trailing (nat K) input_fun))))"
  proof (intro allI impI)
    fix x y z assume x: "x < nx arr" and y: "y < ny arr" and z: "z < nz arr"
    define i where "i = (x * ny arr + y) * nz arr + z"
    from positions_nth [OF x y z] have il: "i < length (positions arr)"
      and ip: "positions arr ! i = (x, y, z)" unfolding i_def by simp_all
    have ir: "i < length rows" unfolding rows_def using il by simp
    have row: "rows ! i = voxel arr x y z"
      unfolding rows_def using il ip by (simp add: at_pos_def)
    from il obtain p ps where pp: "positions arr = p # ps" by (cases "positions arr") auto
    then have "p \<in> set (positions arr)" by simp
    then have nf: "n_frames arr = Tc" using assms(1) pp by (simp add: n_frames_def)
    have lt: "length (trailing (nat K) (np_transpose Tc rows))
              = length (trailing (nat K) input_fun)"
      using assms(2) by (simp add: trailing_def np_transpose_def) linarith
    have Y: "Y = map (\<lambda>(row, y). map (\<lambda>x. x / y) row)
                    (zip (trailing (nat K) (np_transpose Tc rows)) (trailing (nat K) input_fun))"
      using dc lt unfolding nf py_last_trailing [OF assms(3)] np_divide_column_def by simp
    have "voxel slopes x y z = coef ! i"
      unfolding sl i_def using x y z by (rule voxel_mk)
    also have "\<dots> = fst (ols (py_last K X') (map (\<lambda>row. row ! i) Y))"
      using ft ir by (rule linear_regression_fit_coef)
    also have "map (\<lambda>row. row ! i) Y
        = map (\<lambda>(a, f). a / f) (zip (trailing (nat K) (rows ! i)) (trailing (nat K) input_fun))"
      unfolding Y using wf assms(2) ir by (rule trailing_column_gen)
    finally show "voxel slopes x y z =
            fst (ols (trailing (nat K) (map (\<lambda>(i, f). i / f) (zip integral input_fun)))
                     (map (\<lambda>(a, f). a / f)
                          (zip (trailing (nat K) (voxel arr x y z))
                               (trailing (nat K) input_fun))))"
      unfolding X row .
  qed
  from cs sh vals show ?thesis by blast
qed

lemma length_trapezoid_from:
  "length y = length x \<Longrightarrow> length (trapezoid_from acc y x) = length y - 1"
proof (induction acc y x rule: trapezoid_from.induct)
  case (1 acc y0 y1 ys x0 x1 xs)
  then show ?case by (simp add: Let_def)
qed simp_all

lemma length_cumulative_trapezoid:
  "\<forall>y x r. cumulative_trapezoid y x = Inr r \<longrightarrow> length r = length y"
proof (intro allI impI)
  fix y x :: "rat list" and r
  assume "cumulative_trapezoid y x = Inr r"
  then have "length y = length x" and "y \<noteq> []" and "r = 0 # trapezoid_from 0 y x"
    unfolding cumulative_trapezoid_def by (simp_all split: if_splits)
  then show "length r = length y"
    using length_trapezoid_from [of y x 0] by (cases y) simp_all
qed

section \<open>Properties of the Patlak fit of a dynamic image\<close>

lemma py_slice_range:
  assumes "0 \<le> a" and "a \<le> b" and "b \<le> int n"
  shows "py_slice n a b = [nat a..<nat b]"
  using assms by (simp add: py_slice_def Let_def min_def max_def)

lemma axial_window_shape:
  assumes "0 \<le> a" and "a \<le> b" and "b \<le> int (nz v)"
  shows "nx (axial_window v a b) = nx v" "ny (axial_window v a b) = ny v"
    "nz (axial_window v a b) = nat b - nat a"
  unfolding axial_window_def py_slice_range [OF assms] by (simp_all add: Let_def shape_mk)

lemma axial_window_voxel:
  assumes "0 \<le> a" and "a \<le> b" and "b \<le> int (nz v)"
    and "x < nx v" and "y < ny v" and "k < nat b - nat a"
  shows "voxel (axial_window v a b) x y k = voxel v x y (nat a + k)"
  unfolding axial_window_def py_slice_range [OF assms(1-3)] using assms(4-6)
  by (simp add: Let_def voxel_mk)

lemma last_frames_shape:
  "nx (last_frames k v) = nx v" "ny (last_frames k v) = ny v" "nz (last_frames k v) = nz v"
  unfolding last_frames_def by (simp_all add: shape_mk)

lemma last_frames_voxel:
  assumes "x < nx v" and "y < ny v" and "z < nz v"
  shows "voxel (last_frames k v) x y z = py_last k (voxel v x y z)"
  unfolding last_frames_def using assms by (rule voxel_mk)

lemma assign_axial_range:
  assumes "0 \<le> a" and "a \<le> b" and "b \<le> int (nz out)"
    and "nx src = nx out" and "ny src = ny out" and "nz src = nat b - nat a"
  shows "assign_axial out a b src
         = Inr (mk (nx out) (ny out) (nz out)
                  (\<lambda>x y z. if nat a \<le> z \<and> z < nat b then voxel src x y (z - nat a)
                            else voxel out x y z))"
proof -
  have hd: "\<And>z. nat a \<le> z \<and> z < nat b \<Longrightarrow> hd [nat a..<nat b] = nat a"
  proof -
    fix z :: nat assume "nat a \<le> z \<and> z < nat b"
    then have "nat a < nat b" by linarith
    then show "hd [nat a..<nat b] = nat a" by (simp add: upt_conv_Cons)
  qed
  have f: "(\<lambda>x y z. if z \<in> set [nat a..<nat b]
                   then voxel src (if nx src = nx out then x else 0)
                                  (if ny src = ny out then y else 0)
                                  (if nz src = length [nat a..<nat b]
                                   then z - hd [nat a..<nat b] else 0)
                   else voxel out x y z)
        = (\<lambda>x y z. if nat a \<le> z \<and> z < nat b then voxel src x y (z - nat a)
                            else voxel out x y z)"
    using hd assms(4-6) by (intro ext) auto
  show ?thesis
    unfolding assign_axial_def py_slice_range [OF assms(1-3)] Let_def f
    using assms(4-6) by simp
qed

lemma chunk_at_live:
  assumes "0 < C" and "0 \<le> B" and "int i * C < L"
  shows "0 \<le> read_start (chunk_at L C B i)"
    "read_start (chunk_at L C B i) \<le> read_end (chunk_at L C B i)"
    "read_end (chunk_at L C B i) \<le> L"
    "0 \<le> valid_start (chunk_at L C B i)"
    "valid_start (chunk_at L C B i) \<le> valid_end (chunk_at L C B i)"
    "valid_end (chunk_at L C B i) \<le> read_end (chunk_at L C B i) - read_start (chunk_at L C B i)"
    "write_start (chunk_at L C B i) = int i * C"
    "write_start (chunk_at L C B i) + write_size (chunk_at L C B i) = min L (int i * C + C)"
    "nat (valid_end (chunk_at L C B i)) - nat (valid_start (chunk_at L C B i))
       = nat (min L (int i * C + C)) - i * nat C"
    "nat (read_start (chunk_at L C B i)) + nat (valid_start (chunk_at L C B i)) = i * nat C"
    "read_start (chunk_at L C B i) = max 0 (int i * C - B)"
    "read_end (chunk_at L C B i) = min L (int i * C + C + B)"
proof -
  have i0: "0 \<le> int i * C" using assms(1) by simp
  have e: "(int i + 1) * C = int i * C + C" by (simp add: distrib_right)
  have n: "nat (int i * C) = i * nat C" using assms(1) by (simp add: nat_mult_distrib)
  have L0: "0 \<le> L" using i0 assms(3) by linarith
  show "0 \<le> read_start (chunk_at L C B i)"
    "read_start (chunk_at L C B i) \<le> read_end (chunk_at L C B i)"
    "read_end (chunk_at L C B i) \<le> L"
    "0 \<le> valid_start (chunk_at L C B i)"
    "valid_start (chunk_at L C B i) \<le> valid_end (chunk_at L C B i)"
    "valid_end (chunk_at L C B i) \<le> read_end (chunk_at L C B i) - read_start (chunk_at L C B i)"
    "write_start (chunk_at L C B i) = int i * C"
    "write_start (chunk_at L C B i) + write_size (chunk_at L C B i) = min L (int i * C + C)"
    unfolding chunk_at_def Let_def e using assms i0 L0 by simp_all
  have "nat (valid_end (chunk_at L C B i)) - nat (valid_start (chunk_at L C B i))
       = nat (min L (int i * C + C)) - nat (int i * C)"
    unfolding chunk_at_def Let_def e using assms i0 L0 by (auto simp add: min_def max_def; arith) 
  then show "nat (valid_end (chunk_at L C B i)) - nat (valid_start (chunk_at L C B i))
       = nat (min L (int i * C + C)) - i * nat C" unfolding n .
  have "nat (read_start (chunk_at L C B i)) + nat (valid_start (chunk_at L C B i)) = nat (int i * C)"
    unfolding chunk_at_def Let_def e using assms i0 L0 by (auto simp add: min_def max_def; arith)
  then show "nat (read_start (chunk_at L C B i)) + nat (valid_start (chunk_at L C B i)) = i * nat C"
    unfolding n .
  show "read_start (chunk_at L C B i) = max 0 (int i * C - B)"
    "read_end (chunk_at L C B i) = min L (int i * C + C + B)"
    unfolding chunk_at_def Let_def by simp_all
qed

lemma length_py_last:
  assumes "0 < k"
  shows "length (py_last k xs) = min (nat k) (length xs)"
  using assms by (simp add: py_last_def)

lemma valid_chunk_live:
  assumes C: "0 < C" and B: "0 \<le> B" and live: "int i * C < int (nz img)"
    and wf: "\<forall>x<nx img. \<forall>y<ny img. \<forall>z<nz img. length (voxel img x y z) = T"
    and gf: "0 < g \<longrightarrow> (\<forall>c. same_shape (gaussian_filter c g) c
               \<and> (\<forall>x<nx c. \<forall>y<ny c. \<forall>z<nz c.
                    length (voxel (gaussian_filter c g) x y z) = length (voxel c x y z)))"
    and K: "0 < K"
  defines "vc \<equiv> valid_chunk gaussian_filter img g K (chunk_at (int (nz img)) C B i)"
  shows "nx vc = nx img" and "ny vc = ny img"
    and "nz vc = nat (min (int (nz img)) (int i * C + C)) - i * nat C"
    and "\<forall>p\<in>set (positions vc). length (at_pos vc p) = min (nat K) T"
    and "\<And>x y k. g \<le> 0 \<Longrightarrow> x < nx img \<Longrightarrow> y < ny img \<Longrightarrow> k < nz vc
          \<Longrightarrow> voxel vc x y k = py_last K (voxel img x y (i * nat C + k))"
    and "\<And>x y k. 0 < g \<Longrightarrow> x < nx img \<Longrightarrow> y < ny img \<Longrightarrow> k < nz vc
          \<Longrightarrow> voxel vc x y k
              = voxel (gaussian_filter
                         (last_frames K
                            (axial_window img (max 0 (int i * C - B))
                               (min (int (nz img)) (int i * C + C + B)))) g)
                  x y (i * nat C + k - nat (max 0 (int i * C - B)))"
proof -
  define c where "c = chunk_at (int (nz img)) C B i"
  note f = chunk_at_live [OF C B live, folded c_def]
  define w where "w = axial_window img (read_start c) (read_end c)"
  define lf where "lf = last_frames K w"
  define ch where "ch = (if 0 < g then gaussian_filter lf g else lf)"
  have vc: "vc = axial_window ch (valid_start c) (valid_end c)"
    unfolding vc_def valid_chunk_def Let_def c_def ch_def lf_def w_def ..
  have wsh: "nx w = nx img" "ny w = ny img" "nz w = nat (read_end c) - nat (read_start c)"
    unfolding w_def using f(1,2,3) by (rule axial_window_shape)+
  have wv: "\<And>x y k. x < nx img \<Longrightarrow> y < ny img \<Longrightarrow> k < nz w
              \<Longrightarrow> voxel w x y k = voxel img x y (nat (read_start c) + k)"
  proof -
    fix x y k assume x: "x < nx img" and y: "y < ny img" and k: "k < nz w"
    have k': "k < nat (read_end c) - nat (read_start c)" using k wsh(3) by simp
    show "voxel w x y k = voxel img x y (nat (read_start c) + k)"
      unfolding w_def by (rule axial_window_voxel [OF f(1,2,3) x y k'])
  qed
  have wl: "\<And>x y k. x < nx img \<Longrightarrow> y < ny img \<Longrightarrow> k < nz w
              \<Longrightarrow> length (voxel w x y k) = T"
  proof -
    fix x y k assume x: "x < nx img" and y: "y < ny img" and k: "k < nz w"
    have "nat (read_start c) + k < nz img" using k f(1,2,3) unfolding wsh(3) by linarith
    then show "length (voxel w x y k) = T" unfolding wv [OF x y k] using wf x y by simp
  qed
  have lsh: "nx lf = nx img" "ny lf = ny img" "nz lf = nz w"
    unfolding lf_def last_frames_shape wsh by simp_all
  have lv: "\<And>x y k. x < nx img \<Longrightarrow> y < ny img \<Longrightarrow> k < nz w
              \<Longrightarrow> voxel lf x y k = py_last K (voxel w x y k)"
    unfolding lf_def using wsh(1,2) by (simp add: last_frames_voxel)
  have csh: "nx ch = nx img" "ny ch = ny img" "nz ch = nz w"
    unfolding ch_def using gf lsh by (auto simp add: same_shape_def)
  have cl: "\<And>x y k. x < nx img \<Longrightarrow> y < ny img \<Longrightarrow> k < nz w
              \<Longrightarrow> length (voxel ch x y k) = min (nat K) T"
  proof -
    fix x y k assume x: "x < nx img" and y: "y < ny img" and k: "k < nz w"
    have "length (voxel ch x y k) = length (voxel lf x y k)"
      unfolding ch_def using gf lsh x y k by auto
    then show "length (voxel ch x y k) = min (nat K) T"
      unfolding lv [OF x y k] length_py_last [OF K] wl [OF x y k] .
  qed
  have ve: "valid_end c \<le> int (nz ch)" unfolding csh wsh using f(1,2,6) by linarith
  show sx: "nx vc = nx img" and sy: "ny vc = ny img"
    unfolding vc axial_window_shape [OF f(4,5) ve] csh by simp_all
  have sz': "nz vc = nat (valid_end c) - nat (valid_start c)"
    unfolding vc by (rule axial_window_shape [OF f(4,5) ve])
  then show sz: "nz vc = nat (min (int (nz img)) (int i * C + C)) - i * nat C"
    unfolding f(9) .
  have vv: "\<And>x y k. x < nx img \<Longrightarrow> y < ny img \<Longrightarrow> k < nz vc
              \<Longrightarrow> voxel vc x y k = voxel ch x y (nat (valid_start c) + k)"
  proof -
    fix x y k assume x: "x < nx img" and y: "y < ny img" and k: "k < nz vc"
    have k': "k < nat (valid_end c) - nat (valid_start c)" using k sz' by simp
    have x': "x < nx ch" and y': "y < ny ch" using x y csh by simp_all
    show "voxel vc x y k = voxel ch x y (nat (valid_start c) + k)"
      unfolding vc by (rule axial_window_voxel [OF f(4,5) ve x' y' k'])
  qed
  have inw: "\<And>k. k < nz vc \<Longrightarrow> nat (valid_start c) + k < nz w"
    unfolding sz' using ve f(4,5) unfolding csh by linarith
  show "\<forall>p\<in>set (positions vc). length (at_pos vc p) = min (nat K) T"
    unfolding set_positions at_pos_def sx sy using vv cl inw by auto
  show "\<And>x y k. g \<le> 0 \<Longrightarrow> x < nx img \<Longrightarrow> y < ny img \<Longrightarrow> k < nz vc
          \<Longrightarrow> voxel vc x y k = py_last K (voxel img x y (i * nat C + k))"
  proof -
    fix x y k assume g: "g \<le> 0" and x: "x < nx img" and y: "y < ny img" and k: "k < nz vc"
    have "voxel vc x y k = voxel ch x y (nat (valid_start c) + k)" using x y k by (rule vv)
    also have "\<dots> = voxel lf x y (nat (valid_start c) + k)" unfolding ch_def using g by simp
    also have "\<dots> = py_last K (voxel w x y (nat (valid_start c) + k))"
      using x y inw [OF k] by (rule lv)
    also have "voxel w x y (nat (valid_start c) + k)
               = voxel img x y (nat (read_start c) + (nat (valid_start c) + k))"
      using x y inw [OF k] by (rule wv)
    also have "nat (read_start c) + (nat (valid_start c) + k) = i * nat C + k"
      using f(10) by simp
    finally show "voxel vc x y k = py_last K (voxel img x y (i * nat C + k))" .
  qed
  show "\<And>x y k. 0 < g \<Longrightarrow> x < nx img \<Longrightarrow> y < ny img \<Longrightarrow> k < nz vc
          \<Longrightarrow> voxel vc x y k
              = voxel (gaussian_filter
                         (last_frames K
                            (axial_window img (max 0 (int i * C - B))
                               (min (int (nz img)) (int i * C + C + B)))) g)
                  x y (i * nat C + k - nat (max 0 (int i * C - B)))"
  proof -
    fix x y k assume g: "0 < g" and x: "x < nx img" and y: "y < ny img" and k: "k < nz vc"
    have "voxel vc x y k = voxel ch x y (nat (valid_start c) + k)" using x y k by (rule vv)
    also have "nat (valid_start c) + k = i * nat C + k - nat (read_start c)"
      using f(10) by linarith
    finally show "voxel vc x y k
              = voxel (gaussian_filter
                         (last_frames K
                            (axial_window img (max 0 (int i * C - B))
                               (min (int (nz img)) (int i * C + C + B)))) g)
                  x y (i * nat C + k - nat (max 0 (int i * C - B)))"
      unfolding ch_def lf_def w_def f(11,12) using g by simp
  qed
qed

lemma div_mod_chunk:
  fixes z i c :: nat
  assumes "i * c \<le> z" and "z < Suc i * c"
  shows "z div c = i" and "z mod c = z - i * c"
proof -
  have c: "0 < c" using assms by (cases c) simp_all
  have "z = i * c + (z - i * c)" and "z - i * c < c" using assms by simp_all
  then show "z div c = i"
    by (metis c div_mult_self3 div_less add_cancel_right_right less_nat_zero_code neq0_conv)
  then show "z mod c = z - i * c"
    by (metis minus_mult_div_eq_mod mult.commute)
qed

lemma patlak_steps_chunks:
  fixes img :: "'a::{inverse,numeral,zero} list vol"
  shows "0 < C \<Longrightarrow> 0 \<le> B \<Longrightarrow> L = int (nz img)
    \<Longrightarrow> \<forall>x<nx img. \<forall>y<ny img. \<forall>z<nz img. length (voxel img x y z) = length input_fun
    \<Longrightarrow> 0 < g \<longrightarrow> (\<forall>c. same_shape (gaussian_filter c g) c
               \<and> (\<forall>x<nx c. \<forall>y<ny c. \<forall>z<nz c.
                    length (voxel (gaussian_filter c g) x y z) = length (voxel c x y z)))
    \<Longrightarrow> 0 < K
    \<Longrightarrow> \<forall>y x r. cumulative_simpson y x = Inr r \<longrightarrow> length r = length y
    \<Longrightarrow> patlak_steps cumulative_simpson is_finite ols gaussian_filter img input_fun t g K
          (chunks_from L C B i) out = Inr res
    \<Longrightarrow> same_shape out img
    \<Longrightarrow> same_shape res img
       \<and> (\<forall>x<nx img. \<forall>y<ny img. \<forall>z<nz img.
            (z < i * nat C \<longrightarrow> voxel res x y z = voxel out x y z)
          \<and> (i * nat C \<le> z \<longrightarrow>
               (\<exists>integral. cumulative_simpson input_fun (map (\<lambda>s. s / 60) t) = Inr integral
                  \<and> voxel res x y z
                      = patlak_slope ols (nat K) integral input_fun
                          (voxel (valid_chunk gaussian_filter img g K
                                    (chunk_at L C B (z div nat C))) x y (z mod nat C)))))"
proof (induction L C B i arbitrary: out rule: chunks_from.induct)
  case (1 L C B i)
  note C = "1.prems"(1) and B = "1.prems"(2) and L = "1.prems"(3) and wf = "1.prems"(4)
    and gf = "1.prems"(5) and K = "1.prems"(6) and csc = "1.prems"(7)
    and run = "1.prems"(8) and sh = "1.prems"(9)
  have n: "int (i * nat C) = int i * C" using C by simp
  show ?case
  proof (cases "L \<le> int i * C")
    case True
    then have "chunks_from L C B i = []" by (subst chunks_from.simps) simp
    then have res: "res = out" using run by simp
    have "\<And>z. z < nz img \<Longrightarrow> \<not> i * nat C \<le> z" using True L n by linarith
    then show ?thesis unfolding res using sh by simp
  next
    case False
    then have live: "int i * C < int (nz img)" using L by simp
    let ?c = "chunk_at L C B i"
    let ?vc = "valid_chunk gaussian_filter img g K ?c"
    have cf: "chunks_from L C B i = ?c # chunks_from L C B (Suc i)"
      using False C by (subst chunks_from.simps) simp
    from run obtain slopes intercepts out' where
      vp: "voxel_patlak_chunk cumulative_simpson is_finite ols ?vc input_fun t K
             = Inr (slopes, intercepts)"
      and asg: "assign_axial out (write_start ?c) (write_start ?c + write_size ?c) slopes = Inr out'"
      and rest: "patlak_steps cumulative_simpson is_finite ols gaussian_filter img input_fun t g K
          (chunks_from L C B (Suc i)) out' = Inr res"
      unfolding cf by (auto split: sum.splits prod.splits)
    note f = chunk_at_live [OF C B live, folded L]
    note v = valid_chunk_live [where gaussian_filter = gaussian_filter and g = g and img = img
                               and T = "length input_fun",
                             OF C B live wf gf K, folded L]
    have mn: "min (nat K) (min (nat K) (length input_fun)) = min (nat K) (length input_fun)"
      by simp
    from patlak_chunk_slopes [OF v(4) mn K csc vp] obtain integral where
      cs: "cumulative_simpson input_fun (map (\<lambda>s. s / 60) t) = Inr integral"
      and ssh: "same_shape slopes ?vc"
      and sv: "\<forall>x<nx ?vc. \<forall>y<ny ?vc. \<forall>z<nz ?vc.
                 voxel slopes x y z = patlak_slope ols (nat K) integral input_fun (voxel ?vc x y z)"
      unfolding patlak_slope_def by blast
    define hi where "hi = nat (min L (int i * C + C))"
    have sn: "int (Suc i * nat C) = int i * C + C" using C by (simp add: distrib_right)
    have hi_int: "int hi = min L (int i * C + C)" unfolding hi_def using live C L by simp
    have "int (i * nat C) < int hi" "int hi \<le> int (nz img)" "int hi \<le> int (Suc i * nat C)"
      unfolding hi_int n sn using live C L by simp_all
    then have hi: "i * nat C < hi" "hi \<le> nz img" "hi \<le> Suc i * nat C"
      by (simp_all only: of_nat_less_iff of_nat_le_iff)
    have ws: "nat (write_start ?c) = i * nat C" unfolding f(7) using n by (metis nat_int)
    have we: "nat (write_start ?c + write_size ?c) = hi" unfolding f(8) hi_def ..
    have a1: "0 \<le> write_start ?c" unfolding f(7) using C by simp
    have a2: "write_start ?c \<le> write_start ?c + write_size ?c" unfolding f(8) unfolding f(7) using live C L by simp
    have a3: "write_start ?c + write_size ?c \<le> int (nz out)"
      unfolding f(8) using sh L by (simp add: same_shape_def)
    have a4: "nx slopes = nx out" "ny slopes = ny out"
      using ssh sh v(1,2) by (simp_all add: same_shape_def)
    have a6: "nz slopes = nat (write_start ?c + write_size ?c) - nat (write_start ?c)"
      unfolding ws we using ssh v(3) by (simp add: same_shape_def hi_def L)
    have out': "out' = mk (nx img) (ny img) (nz img)
                  (\<lambda>x y z. if i * nat C \<le> z \<and> z < hi then voxel slopes x y (z - i * nat C)
                            else voxel out x y z)"
      using asg sh unfolding assign_axial_range [OF a1 a2 a3 a4 a6] ws we
      by (simp add: same_shape_def)
    have sh': "same_shape out' img" unfolding out' by (simp add: same_shape_def shape_mk)
    have nl: "\<not> (C \<le> 0 \<or> L \<le> int i * C)" using C False by simp
    from "1.IH" [OF nl C B L wf gf K csc rest sh']
    have rsh: "same_shape res img"
      and ih: "\<forall>x<nx img. \<forall>y<ny img. \<forall>z<nz img.
            (z < Suc i * nat C \<longrightarrow> voxel res x y z = voxel out' x y z)
          \<and> (Suc i * nat C \<le> z \<longrightarrow>
               (\<exists>integral. cumulative_simpson input_fun (map (\<lambda>s. s / 60) t) = Inr integral
                  \<and> voxel res x y z
                      = patlak_slope ols (nat K) integral input_fun
                          (voxel (valid_chunk gaussian_filter img g K
                                    (chunk_at L C B (z div nat C))) x y (z mod nat C))))"
      by blast+
    have "\<forall>x<nx img. \<forall>y<ny img. \<forall>z<nz img.
            (z < i * nat C \<longrightarrow> voxel res x y z = voxel out x y z)
          \<and> (i * nat C \<le> z \<longrightarrow>
               (\<exists>integral. cumulative_simpson input_fun (map (\<lambda>s. s / 60) t) = Inr integral
                  \<and> voxel res x y z
                      = patlak_slope ols (nat K) integral input_fun
                          (voxel (valid_chunk gaussian_filter img g K
                                    (chunk_at L C B (z div nat C))) x y (z mod nat C))))"
    proof (intro allI impI conjI)
      fix x y z assume x: "x < nx img" and y: "y < ny img" and z: "z < nz img"
        and lt: "z < i * nat C"
      have "voxel res x y z = voxel out' x y z" using ih x y z lt by simp
      also have "\<dots> = voxel out x y z" unfolding out' using x y z lt by (simp add: voxel_mk)
      finally show "voxel res x y z = voxel out x y z" .
    next
      fix x y z assume x: "x < nx img" and y: "y < ny img" and z: "z < nz img"
        and ge: "i * nat C \<le> z"
      show "\<exists>integral. cumulative_simpson input_fun (map (\<lambda>s. s / 60) t) = Inr integral
                  \<and> voxel res x y z
                      = patlak_slope ols (nat K) integral input_fun
                          (voxel (valid_chunk gaussian_filter img g K
                                    (chunk_at L C B (z div nat C))) x y (z mod nat C))"
      proof (cases "z < Suc i * nat C")
        case True
        have "int z < int (Suc i * nat C)" using True by (simp only: of_nat_less_iff)
        then have "int z < int hi" unfolding hi_int sn using z L by simp
        then have zh: "z < hi" by simp
        have k: "z - i * nat C < nz ?vc" unfolding v(3) hi_def [symmetric] using zh ge by simp
        have "voxel res x y z = voxel out' x y z" using ih x y z True by simp
        also have "\<dots> = voxel slopes x y (z - i * nat C)"
          unfolding out' using x y z ge zh by (simp add: voxel_mk)
        also have "\<dots> = patlak_slope ols (nat K) integral input_fun (voxel ?vc x y (z - i * nat C))"
          using sv x y k v(1,2) by simp
        finally show ?thesis
          unfolding div_mod_chunk [OF ge True] using cs by blast
      next
        case False
        then show ?thesis using ih x y z by simp
      qed
    qed
    with rsh show ?thesis by blast
  qed
qed

lemma trailing_py_last:
  assumes "0 < k"
  shows "trailing (nat k) (py_last k xs) = trailing (nat k) xs"
  using assms by (simp add: py_last_def trailing_def)

text \<open>
  C7. Let every voxel of the dynamic image hold as many values as the input function,
  let \<open>K\<close> and the axial chunk size be at least 1, let the integration routine return
  one value for each sample and, when a filter size is given, let the Gaussian filter
  keep the shape of its argument. When \<open>voxel_patlak\<close> returns, the volume it returns has
  the spatial shape of the image, and the value it holds at a voxel is the least-squares
  slope, against \<open>X\<close>, of the last \<open>K\<close> values of the voxel divided entry by entry by
  the last \<open>K\<close> values of the input function, where \<open>X\<close> is the cumulative integral of
  the input function over the times divided by 60, divided entry by entry by the input
  function and restricted to its last \<open>K\<close> entries. Without a filter the values of the
  voxel are those of the image, whatever the number of frames; with a filter of size
  \<open>g\<close> they are those of the smoothed last \<open>K\<close> frames of the slices that the chunk of
  the voxel reads, \<open>3 * g\<close> slices beyond the chunk on either side.
\<close>

theorem voxel_patlak_fits_each_voxel:
  fixes img :: "'a::{inverse,numeral,zero} list vol"
  assumes "\<forall>x<nx img. \<forall>y<ny img. \<forall>z<nz img. length (voxel img x y z) = length input_fun"
    and "0 < K"
    and "0 < axial_chunk_size"
    and "\<forall>y x r. cumulative_simpson y x = Inr r \<longrightarrow> length r = length y"
    and "0 < g \<longrightarrow> (\<forall>c. same_shape (gaussian_filter c g) c
               \<and> (\<forall>x<nx c. \<forall>y<ny c. \<forall>z<nz c.
                    length (voxel (gaussian_filter c g) x y z) = length (voxel c x y z)))"
    and "voxel_patlak cumulative_simpson is_finite ols gaussian_filter img input_fun t g K
           axial_chunk_size = Inr out"
  shows "same_shape out img
     \<and> (\<forall>x<nx img. \<forall>y<ny img. \<forall>z<nz img.
          \<exists>integral. cumulative_simpson input_fun (map (\<lambda>s. s / 60) t) = Inr integral
            \<and> voxel out x y z =
                fst (ols (trailing (nat K) (map (\<lambda>(i, f). i / f) (zip integral input_fun)))
                         (map (\<lambda>(a, f). a / f)
                              (zip (trailing (nat K)
                                     (if 0 < g
                                      then (let first = int (z div nat axial_chunk_size)
                                                          * axial_chunk_size;
                                                lo = max 0 (first - 3 * g);
                                                hi = min (int (nz img))
                                                       (first + axial_chunk_size + 3 * g)
                                            in voxel (gaussian_filter
                                                        (last_frames K (axial_window img lo hi)) g)
                                                 x y (z - nat lo))
                                      else voxel img x y z))
                                   (trailing (nat K) input_fun)))))"
proof -
  define B where "B = (if 0 < g then 3 * g else 0)"
  define zeros :: "'a vol" where "zeros = mk (nx img) (ny img) (nz img) (\<lambda>x y z. 0)"
  let ?C = axial_chunk_size
  have B: "0 \<le> B" unfolding B_def by simp
  have run: "patlak_steps cumulative_simpson is_finite ols gaussian_filter img input_fun t g K
          (chunks_from (int (nz img)) ?C B 0) zeros = Inr out"
    using assms(6) unfolding voxel_patlak_def Let_def OverlappedChunkIterator_def B_def zeros_def .
  have zsh: "same_shape zeros img" unfolding zeros_def by (simp add: same_shape_def shape_mk)
  note main = patlak_steps_chunks [OF assms(3) B refl assms(1) assms(5) assms(2) assms(4) run zsh]
  then have sh: "same_shape out img" by blast
  have "\<forall>x<nx img. \<forall>y<ny img. \<forall>z<nz img.
          \<exists>integral. cumulative_simpson input_fun (map (\<lambda>s. s / 60) t) = Inr integral
            \<and> voxel out x y z =
                fst (ols (trailing (nat K) (map (\<lambda>(i, f). i / f) (zip integral input_fun)))
                         (map (\<lambda>(a, f). a / f)
                              (zip (trailing (nat K)
                                     (if 0 < g
                                      then (let first = int (z div nat axial_chunk_size)
                                                          * axial_chunk_size;
                                                lo = max 0 (first - 3 * g);
                                                hi = min (int (nz img))
                                                       (first + axial_chunk_size + 3 * g)
                                            in voxel (gaussian_filter
                                                        (last_frames K (axial_window img lo hi)) g)
                                                 x y (z - nat lo))
                                      else voxel img x y z))
                                   (trailing (nat K) input_fun))))"
  proof (intro allI impI)
    fix x y z assume x: "x < nx img" and y: "y < ny img" and z: "z < nz img"
    define i where "i = z div nat ?C"
    define k where "k = z mod nat ?C"
    have c0: "0 < nat ?C" using assms(3) by simp
    have zk: "i * nat ?C + k = z" unfolding i_def k_def by simp
    have kc: "k < nat ?C" unfolding k_def using c0 by simp
    have ni: "int (i * nat ?C) = int i * ?C" using assms(3) by simp
    have "int (i * nat ?C) \<le> int z" using zk by linarith
    then have live: "int i * ?C < int (nz img)" unfolding ni using z by linarith
    let ?vc = "valid_chunk gaussian_filter img g K (chunk_at (int (nz img)) ?C B i)"
    note v = valid_chunk_live [where gaussian_filter = gaussian_filter and g = g and img = img
                               and T = "length input_fun",
                             OF assms(3) B live assms(1) assms(5) assms(2)]
    have zi: "int z = int i * ?C + int k" using zk ni by linarith
    have ki: "int k < ?C" using kc by linarith
    have za: "int z < int (nz img)" using z by simp
    have zb: "int z < int i * ?C + ?C" using zi ki by linarith
    have "int z < min (int (nz img)) (int i * ?C + ?C)" using za zb by simp
    then have "z < nat (min (int (nz img)) (int i * ?C + ?C))" by linarith
    then have kv: "k < nz ?vc" unfolding v(3) using zk by linarith
    from main have "\<exists>integral. cumulative_simpson input_fun (map (\<lambda>s. s / 60) t) = Inr integral
                  \<and> voxel out x y z
                      = patlak_slope ols (nat K) integral input_fun
                          (voxel (valid_chunk gaussian_filter img g K
                                    (chunk_at (int (nz img)) ?C B (z div nat ?C))) x y (z mod nat ?C))"
      using x y z by simp
    then obtain integral where
      cs: "cumulative_simpson input_fun (map (\<lambda>s. s / 60) t) = Inr integral"
      and val: "voxel out x y z = patlak_slope ols (nat K) integral input_fun (voxel ?vc x y k)"
      unfolding i_def k_def by blast
    have "trailing (nat K) (voxel ?vc x y k)
          = trailing (nat K)
              (if 0 < g
               then (let first = int (z div nat axial_chunk_size) * axial_chunk_size;
                         lo = max 0 (first - 3 * g);
                         hi = min (int (nz img)) (first + axial_chunk_size + 3 * g)
                     in voxel (gaussian_filter (last_frames K (axial_window img lo hi)) g)
                          x y (z - nat lo))
               else voxel img x y z)"
    proof (cases "0 < g")
      case True
      then have b: "B = 3 * g" unfolding B_def by simp
      show ?thesis
        unfolding v(6) [OF True x y kv] zk using True
        by (simp add: Let_def b i_def)
    next
      case False
      then have g: "g \<le> 0" by simp
      show ?thesis
        unfolding v(5) [OF g x y kv] zk trailing_py_last [OF assms(2)] using False by simp
    qed
    then show "\<exists>integral. cumulative_simpson input_fun (map (\<lambda>s. s / 60) t) = Inr integral
            \<and> voxel out x y z =
                fst (ols (trailing (nat K) (map (\<lambda>(i, f). i / f) (zip integral input_fun)))
                         (map (\<lambda>(a, f). a / f)
                              (zip (trailing (nat K)
                                     (if 0 < g
                                      then (let first = int (z div nat axial_chunk_size)
                                                          * axial_chunk_size;
                                                lo = max 0 (first - 3 * g);
                                                hi = min (int (nz img))
                                                       (first + axial_chunk_size + 3 * g)
                                            in voxel (gaussian_filter
                                                        (last_frames K (axial_window img lo hi)) g)
                                                 x y (z - nat lo))
                                      else voxel img x y z))
                                   (trailing (nat K) input_fun))))"
      using cs val unfolding patlak_slope_def by auto
  qed
  with sh show ?thesis by blast
qed

lemma patlak_img_run:
  "voxel_patlak cumulative_trapezoid (\<lambda>a. True) least_squares (\<lambda>c g. c) patlak_img
       [1, 2, 2, 1] [0, 60, 120, 180] 0 2 2
   = Inr \<lparr>nx = 1, ny = 1, nz = 3, vox = [[[40 / 13, 20 / 13, 4 / 13]]]\<rparr>"
  by code_simp

lemma patlak_integral:
  "cumulative_trapezoid [1, 2, 2, 1] (map (\<lambda>s. s / 60) [0, 60, 120, 180])
   = Inr [0, 3 / 2, 7 / 2, 5]"
  by code_simp

theorem voxel_patlak_fits_each_voxel_witness:
  "same_shape \<lparr>nx = 1, ny = 1, nz = 3, vox = [[[40 / 13 :: rat, 20 / 13, 4 / 13]]]\<rparr> patlak_img
   \<and> voxel \<lparr>nx = 1, ny = 1, nz = 3, vox = [[[40 / 13 :: rat, 20 / 13, 4 / 13]]]\<rparr> 0 0 2
       = fst (least_squares
                (trailing 2 (map (\<lambda>(i, f). i / f) (zip [0, 3 / 2, 7 / 2, 5] [1, 2, 2, 1])))
                (map (\<lambda>(a, f). a / f) (zip (trailing 2 [5, 3, 2, 2]) (trailing 2 [1, 2, 2, 1]))))
   \<and> trailing 2 [5, 3, 2, 2 :: rat] = [2, 2]"
proof -
  have wf: "\<forall>x<nx patlak_img. \<forall>y<ny patlak_img. \<forall>z<nz patlak_img.
              length (voxel patlak_img x y z) = length [1, 2, 2, 1 :: rat]"
    by code_simp
  have k: "(0 :: int) < 2" by simp
  have gf: "(0 :: int) < 0 \<longrightarrow> (\<forall>c :: rat list vol. same_shape ((\<lambda>c g. c) c (0 :: int)) c
               \<and> (\<forall>x<nx c. \<forall>y<ny c. \<forall>z<nz c.
                    length (voxel ((\<lambda>c g. c) c (0 :: int)) x y z) = length (voxel c x y z)))"
    by simp
  note main = voxel_patlak_fits_each_voxel
    [where gaussian_filter = "\<lambda>c g. c" and g = 0,
     OF wf k k length_cumulative_trapezoid gf patlak_img_run]
  then have sh: "same_shape \<lparr>nx = 1, ny = 1, nz = 3, vox = [[[40 / 13 :: rat, 20 / 13, 4 / 13]]]\<rparr>
                   patlak_img"
    by blast
  have dims: "0 < nx patlak_img" "0 < ny patlak_img" "2 < nz patlak_img"
    by (simp_all add: patlak_img_def)
  from main have "\<forall>x<nx patlak_img. \<forall>y<ny patlak_img. \<forall>z<nz patlak_img.
      \<exists>integral. cumulative_trapezoid [1, 2, 2, 1] (map (\<lambda>s. s / 60) [0, 60, 120, 180])
                    = Inr integral
        \<and> voxel \<lparr>nx = 1, ny = 1, nz = 3, vox = [[[40 / 13 :: rat, 20 / 13, 4 / 13]]]\<rparr> x y z
            = fst (least_squares
                     (trailing (nat 2) (map (\<lambda>(i, f). i / f) (zip integral [1, 2, 2, 1])))
                     (map (\<lambda>(a, f). a / f)
                          (zip (trailing (nat 2) (voxel patlak_img x y z))
                               (trailing (nat 2) [1, 2, 2, 1]))))"
    by simp
  from this [rule_format, OF dims] obtain integral where
    i: "cumulative_trapezoid [1, 2, 2, 1] (map (\<lambda>s. s / 60) [0, 60, 120, 180]) = Inr integral"
    and v: "voxel \<lparr>nx = 1, ny = 1, nz = 3, vox = [[[40 / 13 :: rat, 20 / 13, 4 / 13]]]\<rparr> 0 0 2
            = fst (least_squares
                     (trailing (nat 2) (map (\<lambda>(i, f). i / f) (zip integral [1, 2, 2, 1])))
                     (map (\<lambda>(a, f). a / f)
                          (zip (trailing (nat 2) (voxel patlak_img 0 0 2))
                               (trailing (nat 2) [1, 2, 2, 1]))))"
    by blast
  from i patlak_integral have int: "integral = [0, 3 / 2, 7 / 2, 5]" by simp
  have n2: "nat 2 = 2" by simp
  have s: "voxel patlak_img 0 0 2 = [5, 3, 2, 2]" by (simp add: patlak_img_def voxel_def)
  have t: "trailing 2 [5, 3, 2, 2 :: rat] = [2, 2]" by (simp add: trailing_def)
  from sh v [unfolded int n2 s] t show ?thesis by blast
qed
end
